theory Spec2Isabelle
  imports Main "HOL-Library.AList" "HOL-Library.Sublist"
begin

section \<open>The match scraper: data model\<close>

text \<open>
  The program is one Python module, \<^verbatim>\<open>data-collection/match-scraper-aws.py\<close>. Its
  module-level variables (\<^verbatim>\<open>request_timestamps\<close>, \<^verbatim>\<open>puuid_cache\<close>), the files it
  reads and writes, the wall clock and the HTTP server are gathered in one record,
  \<open>world\<close>, which every function takes and returns.

  Values decoded by \<^verbatim>\<open>json.load\<close> and \<^verbatim>\<open>response.json()\<close> are Python objects: \<^verbatim>\<open>None\<close>,
  booleans, integers, strings, lists and dicts. Numbers with a fraction or an exponent
  decode to floats and have no counterpart here. A dict is the list of its items in
  insertion order.
\<close>

datatype json =
    JNull
  | JBool bool
  | JInt int
  | JStr string
  | JArr "json list"
  | JObj "(string \<times> json) list"

text \<open>Python truthiness, as used by \<^verbatim>\<open>if data:\<close>, \<^verbatim>\<open>if not players:\<close> and \<^verbatim>\<open>x or []\<close>.\<close>

fun truthy :: "json \<Rightarrow> bool" where
  "truthy JNull = False"
| "truthy (JBool b) = b"
| "truthy (JInt n) = (n \<noteq> 0)"
| "truthy (JStr s) = (s \<noteq> [])"
| "truthy (JArr xs) = (xs \<noteq> [])"
| "truthy (JObj kvs) = (kvs \<noteq> [])"

text \<open>
  The four f-string URLs of \<^verbatim>\<open>get_players\<close>, \<^verbatim>\<open>get_puuid\<close>, \<^verbatim>\<open>get_matches\<close> and
  \<^verbatim>\<open>save_match\<close>, kept as the values interpolated into them.
\<close>

datatype url =
    PlayersURL string string json
  | SummonerURL json
  | MatchesURL json int
  | MatchURL string

text \<open>
  What \<^verbatim>\<open>requests.get\<close> can come back with. \<open>ConnError\<close> is an exception raised by the
  transport. The \<^verbatim>\<open>Retry-After\<close> header is represented by what
  \<^verbatim>\<open>int(response.headers.get("Retry-After", 10))\<close> makes of it: the header may be absent,
  hold an integer literal, or hold text on which \<^verbatim>\<open>int\<close> raises \<^verbatim>\<open>ValueError\<close> (an HTTP
  date, for instance). The body is \<open>None\<close> when \<^verbatim>\<open>response.json()\<close> raises.
\<close>

datatype retry_after = NoHeader | IntHeader int | BadHeader

datatype response =
    ConnError
  | Response (status_code: int) (retry_after_header: retry_after) (json_body: "json option")

datatype logmsg =
    RateLimitReached int
  | Received429 int
  | ApiError
  | SavedMatch string string string
  | Processing string string
  | Collected int int string string
  | FinishedDiamondI

text \<open>
  The observable history of a run. \<open>Admit\<close> and \<open>ApiCall\<close> mark the entry into
  \<^verbatim>\<open>rate_limit_sleep\<close> and \<^verbatim>\<open>make_api_call\<close>; the others are the effects themselves.
  A \<open>Sleep\<close> names which of the three \<^verbatim>\<open>time.sleep\<close> calls of the module it is.
  Durations are in microseconds, the resolution of \<^verbatim>\<open>datetime\<close>.
\<close>

datatype sleeper = Limiter | RetryAfter | PageBuffer

datatype event =
    Admit
  | Sleep sleeper int
  | ApiCall url
  | Get url
  | Log logmsg
  | Print string
  | WriteMatch string string string json
  | AppendCsv "string list"
  | SaveState json

datatype pykey = KNone | KInt int | KStr string

record world =
  clock :: int
  request_timestamps :: "int list"
  puuid_cache :: "pykey \<rightharpoonup> json"
  dirs :: "(string \<times> string) set"
  files :: "(string \<times> string \<times> string) \<rightharpoonup> json"
  csv_file :: "string list list option"
  state_file :: "json option"
  script :: "response list"
  trace :: "event list"

text \<open>
  \<open>script\<close> holds the responses the server will give to the next requests, in order.
  A request made when the script is empty gets no answer within the modelled horizon:
  the run stops there with \<open>Pending\<close>. An uncaught exception is \<open>Raised\<close>. A match
  identifier that is not a string stops the model with \<open>Unmodelled\<close>: the file name
  Python would format for it is not represented. A function that can stop returns
  \<open>stop + 'a\<close>, with \<open>Inr\<close> for the normal result.
\<close>

datatype exn = TypeError | KeyError | AttributeError | PyException

datatype stop = Raised exn | Pending | Unmodelled

definition REQUEST_LIMIT :: nat where
  "REQUEST_LIMIT = 100"

definition WINDOW_SECONDS :: int where
  "WINDOW_SECONDS = 120"

definition seconds :: "int \<Rightarrow> int" where
  "seconds n = n * 1000000"

definition emit :: "event \<Rightarrow> world \<Rightarrow> world" where
  "emit e w = w\<lparr>trace := trace w @ [e]\<rparr>"

definition sleep :: "sleeper \<Rightarrow> int \<Rightarrow> world \<Rightarrow> world" where
  "sleep who d w = emit (Sleep who d) (w\<lparr>clock := clock w + d\<rparr>)"

section \<open>Rate limiting\<close>

text \<open>
  \<^verbatim>\<open>rate_limit_sleep\<close>: drop the timestamps that left the window, sleep until the oldest
  one leaves it when \<^verbatim>\<open>REQUEST_LIMIT\<close> remain, then record \<^verbatim>\<open>now\<close>, the time read on
  entry. \<^verbatim>\<open>request_timestamps[0]\<close> is only read on a list of at least \<^verbatim>\<open>REQUEST_LIMIT\<close>
  elements, so its \<^verbatim>\<open>IndexError\<close> cannot occur; the empty case below is never taken.
\<close>

definition rate_limit_sleep :: "world \<Rightarrow> world" where
  "rate_limit_sleep w =
     (let now = clock w;
          ts = filter (\<lambda>t. t > now - seconds WINDOW_SECONDS) (request_timestamps w);
          w1 = emit Admit (w\<lparr>request_timestamps := ts\<rparr>);
          w2 = (if length ts \<ge> REQUEST_LIMIT then
                  (case ts of
                     [] \<Rightarrow> w1
                   | oldest # _ \<Rightarrow>
                       let sleep_time = (oldest + seconds WINDOW_SECONDS) - now
                       in sleep Limiter (max sleep_time 0) (emit (Log (RateLimitReached sleep_time)) w1))
                else w1)
      in w2\<lparr>request_timestamps := request_timestamps w2 @ [now]\<rparr>)"

lemma script_rate_limit_sleep [simp]: "script (rate_limit_sleep w) = script w"
  by (simp add: rate_limit_sleep_def Let_def emit_def sleep_def split: list.split)

section \<open>API calls\<close>

text \<open>
  \<^verbatim>\<open>time.sleep(retry_after)\<close> on an integer. A negative number raises \<^verbatim>\<open>ValueError\<close>. A
  number of seconds from \<open>SLEEP_OVERFLOW\<close> on does not fit the 64-bit count of
  nanoseconds that CPython converts it to, and raises \<^verbatim>\<open>OverflowError\<close>. Below that, how
  long a sleep the operating system accepts depends on the platform and on its clock
  (the deadline must fit as well): the model follows the call up to \<open>SLEEP_SAFE\<close>
  seconds, the largest whole number of seconds below \<open>2 ^ 32\<close> milliseconds, which every
  implementation of \<^verbatim>\<open>time.sleep\<close> accepts, and stops with \<open>Unmodelled\<close> in between.
  The sleeps of the rate limiter and between pages are 120 seconds at most.
\<close>

definition SLEEP_SAFE :: int where
  "SLEEP_SAFE = 4294967"

definition SLEEP_OVERFLOW :: int where
  "SLEEP_OVERFLOW = 9223372037"

text \<open>
  The body of the \<^verbatim>\<open>try\<close> block of \<^verbatim>\<open>make_api_call\<close> once \<^verbatim>\<open>requests.get\<close> has
  answered: it either ends the loop with a value or, on status 429, sleeps and goes
  round the loop again. \<^verbatim>\<open>int\<close> raising on the header, and \<^verbatim>\<open>time.sleep\<close> raising on
  its argument, happen inside the \<^verbatim>\<open>try\<close> block like every other failure: the
  exception is logged and \<^verbatim>\<open>None\<close> returned. \<^verbatim>\<open>raise_for_status\<close> raises on the
  statuses from 400 to 599. Python's \<^verbatim>\<open>None\<close> is \<open>JNull\<close>.
\<close>

datatype turn = Return "stop + json" | Continue

definition handle_response :: "response \<Rightarrow> world \<Rightarrow> turn \<times> world" where
  "handle_response r w =
     (case r of
        ConnError \<Rightarrow> (Return (Inr JNull), emit (Log ApiError) w)
      | Response status hdr body \<Rightarrow>
          if status = 429 then
            (case hdr of
               BadHeader \<Rightarrow> (Return (Inr JNull), emit (Log ApiError) w)
             | NoHeader \<Rightarrow> (Continue, sleep RetryAfter (seconds 10) (emit (Log (Received429 10)) w))
             | IntHeader n \<Rightarrow>
                 let w1 = emit (Log (Received429 n)) w in
                 if n < 0 \<or> SLEEP_OVERFLOW \<le> n then (Return (Inr JNull), emit (Log ApiError) w1)
                 else if n \<le> SLEEP_SAFE then (Continue, sleep RetryAfter (seconds n) w1)
                 else (Return (Inl Unmodelled), w1))
          else if 400 \<le> status \<and> status < 600 then (Return (Inr JNull), emit (Log ApiError) w)
          else (case body of
                  None \<Rightarrow> (Return (Inr JNull), emit (Log ApiError) w)
                | Some j \<Rightarrow> (Return (Inr j), w)))"

lemma script_emit [simp]: "script (emit e w) = script w"
  by (simp add: emit_def)

lemma script_sleep [simp]: "script (sleep who d w) = script w"
  by (simp add: sleep_def)

lemma script_handle_response [simp]: "script (snd (handle_response r w)) = script w"
  by (simp add: handle_response_def Let_def split: response.split retry_after.split option.split)

lemma script_handle_response_eq: "(t, y) = handle_response r w \<Longrightarrow> script y = script w"
  by (metis script_handle_response snd_conv)

text \<open>
  The \<^verbatim>\<open>while True\<close> loop of \<^verbatim>\<open>make_api_call\<close>. Each turn passes the rate limiter and
  sends one request, which takes one response from the script: the length of the script
  is the measure of termination.
\<close>

function api_loop :: "url \<Rightarrow> world \<Rightarrow> (stop + json) \<times> world" where
  "api_loop u w =
     (let w1 = emit (Get u) (rate_limit_sleep w) in
      case script w1 of
        [] \<Rightarrow> (Inl Pending, w1)
      | r # rs \<Rightarrow>
          (case handle_response r (w1\<lparr>script := rs\<rparr>) of
             (Return x, w2) \<Rightarrow> (x, w2)
           | (Continue, w2) \<Rightarrow> api_loop u w2))"
  by pat_completeness auto
termination
  by (relation "measure (\<lambda>(u, w). length (script w))")
     (auto dest!: script_handle_response_eq)

declare api_loop.simps [simp del]

text \<open>
  What a function adds to the history: \<open>steps A w w'\<close> says that \<open>w'\<close> has the trace of
  \<open>w\<close> followed by events of the class \<open>A\<close>, a script that is not longer, and a PUUID
  cache that has kept every entry of \<open>w\<close>. The events of the rate limiter and of the
  response handling are \<open>noise\<close>.
\<close>

fun noise :: "event \<Rightarrow> bool" where
  "noise Admit = True"
| "noise (Sleep who d) = True"
| "noise (Log (RateLimitReached d)) = True"
| "noise (Log (Received429 n)) = True"
| "noise (Log ApiError) = True"
| "noise _ = False"

definition steps :: "(event \<Rightarrow> bool) \<Rightarrow> world \<Rightarrow> world \<Rightarrow> bool" where
  "steps A w w' \<longleftrightarrow>
     length (script w') \<le> length (script w) \<and>
     puuid_cache w \<subseteq>\<^sub>m puuid_cache w' \<and>
     (\<exists>tr. trace w' = trace w @ tr \<and> list_all A tr)"

lemma steps_refl [simp]: "steps A w w"
  by (simp add: steps_def)

lemma steps_trans: "steps A w w1 \<Longrightarrow> steps A w1 w2 \<Longrightarrow> steps A w w2"
  by (auto simp: steps_def intro: map_le_trans)

lemma steps_mono: "steps A w w' \<Longrightarrow> (\<And>e. A e \<Longrightarrow> B e) \<Longrightarrow> steps B w w'"
  by (auto simp: steps_def list_all_iff)

lemma steps_emit: "A e \<Longrightarrow> steps A w (emit e w)"
  by (simp add: steps_def emit_def)

lemma steps_sleep: "A (Sleep who d) \<Longrightarrow> steps A w (sleep who d w)"
  by (simp add: steps_def emit_def sleep_def)

lemma steps_rate_limit_sleep: "steps noise w (rate_limit_sleep w)"
  by (simp add: steps_def rate_limit_sleep_def Let_def emit_def sleep_def split: list.split)

lemma steps_handle_response: "steps noise w (snd (handle_response r w))"
  by (simp add: steps_def handle_response_def Let_def emit_def sleep_def
           split: response.split retry_after.split option.split)

lemma api_loop_unfold:
  "api_loop u w =
     (case script w of
        [] \<Rightarrow> (Inl Pending, emit (Get u) (rate_limit_sleep w))
      | r # rs \<Rightarrow>
          (case handle_response r ((emit (Get u) (rate_limit_sleep w))\<lparr>script := rs\<rparr>) of
             (Return x, w2) \<Rightarrow> (x, w2)
           | (Continue, w2) \<Rightarrow> api_loop u w2))"
  by (subst api_loop.simps) (simp add: Let_def)

lemma api_loop_induct [consumes 1, case_names Pending Return Continue]:
  assumes "api_loop u w = (res, w')"
    and "\<And>u w. script w = [] \<Longrightarrow> P u w (Inl Pending) (emit (Get u) (rate_limit_sleep w))"
    and "\<And>u w r rs j w2. script w = r # rs \<Longrightarrow>
           handle_response r ((emit (Get u) (rate_limit_sleep w))\<lparr>script := rs\<rparr>) = (Return j, w2) \<Longrightarrow>
           P u w j w2"
    and "\<And>u w r rs w2 res w'. script w = r # rs \<Longrightarrow>
           handle_response r ((emit (Get u) (rate_limit_sleep w))\<lparr>script := rs\<rparr>) = (Continue, w2) \<Longrightarrow>
           api_loop u w2 = (res, w') \<Longrightarrow> P u w2 res w' \<Longrightarrow> P u w res w'"
  shows "P u w res w'"
  using assms(1)
proof (induction u w arbitrary: res w' rule: api_loop.induct)
  case (1 u w)
  show ?case
  proof (cases "script w")
    case Nil
    then show ?thesis using assms(2)[of w u] "1.prems" by (subst (asm) api_loop_unfold) auto
  next
    case (Cons r rs)
    obtain t w3 where h: "handle_response r ((emit (Get u) (rate_limit_sleep w))\<lparr>script := rs\<rparr>) = (t, w3)"
      by force
    show ?thesis
    proof (cases t)
      case (Return j)
      then show ?thesis using Cons h assms(3)[of w r rs u j w3] "1.prems"
        by (subst (asm) api_loop_unfold) auto
    next
      case Continue
      have e: "api_loop u w3 = (res, w')"
        using "1.prems" Cons h Continue by (subst (asm) api_loop_unfold) simp
      have "P u w3 res w'"
        using "1.IH"[OF refl _ _ refl, of r rs w3] Cons h Continue e by simp
      then show ?thesis using Cons h Continue assms(4)[of w r rs u w3] e by simp
    qed
  qed
qed

lemma steps_script_update:
  "script w = r # rs \<Longrightarrow> steps A w (w\<lparr>script := rs\<rparr>)"
  by (simp add: steps_def)

lemma steps_get: "steps (\<lambda>e. noise e \<or> e = Get u) w (emit (Get u) (rate_limit_sleep w))"
  by (rule steps_trans[OF steps_mono[OF steps_rate_limit_sleep] steps_emit]) simp_all

lemma steps_turn:
  assumes "script w = r # rs"
    and "handle_response r ((emit (Get u) (rate_limit_sleep w))\<lparr>script := rs\<rparr>) = (t, w2)"
  shows "steps (\<lambda>e. noise e \<or> e = Get u) w w2"
proof -
  let ?A = "\<lambda>e. noise e \<or> e = Get u"
  let ?w1 = "emit (Get u) (rate_limit_sleep w)"
  have s2: "steps ?A w (?w1\<lparr>script := rs\<rparr>)"
    by (rule steps_trans[OF steps_get steps_script_update[of _ r]]) (simp add: assms(1))
  show ?thesis
    using steps_trans[OF s2 steps_mono[OF steps_handle_response[of "?w1\<lparr>script := rs\<rparr>" r]]] assms(2)
    by simp
qed

lemma steps_api_loop: "api_loop u w = (res, w') \<Longrightarrow> steps (\<lambda>e. noise e \<or> e = Get u) w w'"
proof (induction rule: api_loop_induct)
  case (Pending u w)
  show ?case by (rule steps_get)
next
  case (Return u w r rs j w2)
  then show ?case using steps_turn by simp
next
  case (Continue u w r rs w2 res w')
  then show ?case using steps_turn steps_trans by blast
qed

lemma script_turn:
  assumes "script w = r # rs"
    and "handle_response r ((emit (Get u) (rate_limit_sleep w))\<lparr>script := rs\<rparr>) = (t, w2)"
  shows "script w2 = rs"
  using script_handle_response[of r "(emit (Get u) (rate_limit_sleep w))\<lparr>script := rs\<rparr>"] assms(2)
  by simp

lemma script_api_loop_less:
  "api_loop u w = (Inr j, w') \<Longrightarrow> length (script w') < length (script w)"
proof (induction u w "Inr j :: stop + json" w' rule: api_loop_induct)
  case (Return u w r rs w2)
  have "script w2 = rs" by (rule script_turn[OF Return(1) Return(2)])
  then show ?case using Return(1) by simp
next
  case (Continue u w r rs w2 w')
  have "script w2 = rs" by (rule script_turn[OF Continue(1) Continue(2)])
  then show ?case using Continue(1) Continue(4) by simp
qed

lemma handle_response_stop:
  "handle_response r w = (Return (Inl s), w') \<Longrightarrow> s = Unmodelled"
  by (auto simp: handle_response_def Let_def
           split: response.splits retry_after.splits option.splits if_splits)

lemma api_loop_stop: "api_loop u w = (Inl s, w') \<Longrightarrow> s = Pending \<or> s = Unmodelled"
proof (induction u w "Inl s :: stop + json" w' rule: api_loop_induct)
  case (Return u w r rs w2)
  then show ?case using handle_response_stop by blast
qed simp_all

lemma api_loop_get: "api_loop u w = (res, w') \<Longrightarrow> \<exists>tr. trace w' = trace w @ tr \<and> Get u \<in> set tr"
proof (induction rule: api_loop_induct)
  case (Pending u w)
  have "steps noise w (rate_limit_sleep w)" by (rule steps_rate_limit_sleep)
  then show ?case by (auto simp: steps_def emit_def)
next
  case (Return u w r rs j w2)
  have "steps noise w (rate_limit_sleep w)" by (rule steps_rate_limit_sleep)
  moreover have "steps noise ((emit (Get u) (rate_limit_sleep w))\<lparr>script := rs\<rparr>) w2"
    using steps_handle_response[of "(emit (Get u) (rate_limit_sleep w))\<lparr>script := rs\<rparr>" r] Return by simp
  ultimately show ?case by (auto simp: steps_def emit_def)
next
  case (Continue u w r rs w2 res w')
  have "steps (\<lambda>e. noise e \<or> e = Get u) w w2" using steps_turn Continue by blast
  then show ?case using Continue(4) by (auto simp: steps_def)
qed

definition net_frame :: "world \<Rightarrow> world \<Rightarrow> bool" where
  "net_frame w w' \<longleftrightarrow>
     files w' = files w \<and> csv_file w' = csv_file w \<and> dirs w' = dirs w \<and>
     state_file w' = state_file w \<and> puuid_cache w' = puuid_cache w"

lemma net_frame_refl [simp]: "net_frame w w"
  by (simp add: net_frame_def)

lemma net_frame_trans: "net_frame w w1 \<Longrightarrow> net_frame w1 w2 \<Longrightarrow> net_frame w w2"
  by (simp add: net_frame_def)

lemma net_frame_emit [simp]: "net_frame w (emit e w)"
  by (simp add: net_frame_def emit_def)

lemma net_frame_sleep [simp]: "net_frame w (sleep who d w)"
  by (simp add: net_frame_def emit_def sleep_def)

lemma net_frame_rate_limit_sleep [simp]: "net_frame w (rate_limit_sleep w)"
  by (simp add: net_frame_def rate_limit_sleep_def Let_def emit_def sleep_def split: list.split)

lemma net_frame_handle_response [simp]: "net_frame w (snd (handle_response r w))"
  by (simp add: net_frame_def handle_response_def Let_def emit_def sleep_def
           split: response.split retry_after.split option.split)

lemma net_frame_get: "net_frame w ((emit (Get u) (rate_limit_sleep w))\<lparr>script := rs\<rparr>)"
proof -
  have "net_frame w (emit (Get u) (rate_limit_sleep w))"
    by (rule net_frame_trans[OF net_frame_rate_limit_sleep net_frame_emit])
  then show ?thesis by (simp add: net_frame_def)
qed

lemma net_frame_turn:
  assumes "handle_response r ((emit (Get u) (rate_limit_sleep w))\<lparr>script := rs\<rparr>) = (t, w2)"
  shows "net_frame w w2"
  using net_frame_trans[OF net_frame_get
          net_frame_handle_response[of "(emit (Get u) (rate_limit_sleep w))\<lparr>script := rs\<rparr>" r]]
    assms
  by simp

lemma net_frame_api_loop: "api_loop u w = (res, w') \<Longrightarrow> net_frame w w'"
proof (induction rule: api_loop_induct)
  case (Pending u w)
  show ?case by (rule net_frame_trans[OF net_frame_rate_limit_sleep net_frame_emit])
next
  case (Return u w r rs j w2)
  show ?case by (rule net_frame_turn[OF Return(2)])
next
  case (Continue u w r rs w2 res w')
  show ?case by (rule net_frame_trans[OF net_frame_turn[OF Continue(2)] Continue(4)])
qed


definition make_api_call :: "url \<Rightarrow> world \<Rightarrow> (stop + json) \<times> world" where
  "make_api_call u w = api_loop u (emit (ApiCall u) w)"

definition get_players :: "string \<Rightarrow> string \<Rightarrow> json \<Rightarrow> world \<Rightarrow> (stop + json) \<times> world" where
  "get_players tier division page w = make_api_call (PlayersURL tier division page) w"

text \<open>
  Dictionary keys: \<^verbatim>\<open>summoner_id in puuid_cache\<close> hashes the identifier, which raises
  \<^verbatim>\<open>TypeError\<close> for a list or a dict; \<^verbatim>\<open>True\<close> and \<^verbatim>\<open>1\<close> are the same key.
\<close>

fun key_of :: "json \<Rightarrow> pykey option" where
  "key_of JNull = Some KNone"
| "key_of (JBool b) = Some (KInt (if b then 1 else 0))"
| "key_of (JInt n) = Some (KInt n)"
| "key_of (JStr s) = Some (KStr s)"
| "key_of (JArr xs) = None"
| "key_of (JObj kvs) = None"

text \<open>\<^verbatim>\<open>data.get("puuid") if data else None\<close>: only a dict has \<^verbatim>\<open>get\<close>.\<close>

fun puuid_of :: "json \<Rightarrow> stop + json" where
  "puuid_of (JObj kvs) =
     (if kvs = [] then Inr JNull
      else case map_of kvs ''puuid'' of None \<Rightarrow> Inr JNull | Some v \<Rightarrow> Inr v)"
| "puuid_of d = (if truthy d then Inl (Raised AttributeError) else Inr JNull)"

definition get_puuid :: "json \<Rightarrow> world \<Rightarrow> (stop + json) \<times> world" where
  "get_puuid summoner_id w =
     (case key_of summoner_id of
        None \<Rightarrow> (Inl (Raised TypeError), w)
      | Some k \<Rightarrow>
          (case puuid_cache w k of
             Some v \<Rightarrow> (Inr v, w)
           | None \<Rightarrow>
               (case make_api_call (SummonerURL summoner_id) w of
                  (Inl s, w1) \<Rightarrow> (Inl s, w1)
                | (Inr data, w1) \<Rightarrow>
                    (case puuid_of data of
                       Inl s \<Rightarrow> (Inl s, w1)
                     | Inr puuid \<Rightarrow>
                         (Inr puuid, w1\<lparr>puuid_cache := (puuid_cache w1)(k \<mapsto> puuid)\<rparr>)))))"

definition get_matches :: "json \<Rightarrow> int \<Rightarrow> world \<Rightarrow> (stop + json) \<times> world" where
  "get_matches puuid count w =
     (case make_api_call (MatchesURL puuid count) w of
        (Inl s, w1) \<Rightarrow> (Inl s, w1)
      | (Inr data, w1) \<Rightarrow> (Inr (if truthy data then data else JArr []), w1))"

section \<open>The match archive\<close>

text \<open>
  The file system is a store of match files named by folder and file name, a folder
  being the pair of the lowered tier and the division. That is what the paths of
  \<^verbatim>\<open>save_match\<close> are when the tier, the division and the match identifier are \<open>plain\<close>:
  not empty, at most 250 characters, made of ASCII letters, digits, \<^verbatim>\<open>_\<close> and \<^verbatim>\<open>-\<close>. Then
  \<^verbatim>\<open>os.makedirs\<close> and \<^verbatim>\<open>open\<close> get a path with exactly these three components below
  \<^verbatim>\<open>matches\<close>, different names are different files, and \<^verbatim>\<open>lower\<close> only touches the
  letters A to Z. With a separator, a dot or another character in a name the path may
  not exist, may be another bucket's file or may be refused: the model does not follow
  the file system there, and stops with \<open>Unmodelled\<close> unless the store holds the file.
  A row of the index is the list handed to \<^verbatim>\<open>writerow\<close>.
\<close>

definition safe_char :: "char \<Rightarrow> bool" where
  "safe_char c =
     (let n = (of_char c :: nat)
      in (48 \<le> n \<and> n \<le> 57) \<or> (65 \<le> n \<and> n \<le> 90) \<or> (97 \<le> n \<and> n \<le> 122) \<or>
         n = 95 \<or> n = 45)"

definition plain :: "string \<Rightarrow> bool" where
  "plain s = (s \<noteq> [] \<and> length s \<le> 250 \<and> list_all safe_char s)"

definition lower_char :: "char \<Rightarrow> char" where
  "lower_char c =
     (let n = (of_char c :: nat) in if 65 \<le> n \<and> n \<le> 90 then char_of (n + 32) else c)"

definition lower :: "string \<Rightarrow> string" where
  "lower s = map lower_char s"

definition save_match_id_csv :: "string \<Rightarrow> string \<Rightarrow> string \<Rightarrow> world \<Rightarrow> world" where
  "save_match_id_csv match_id tier division w =
     (let rows = (case csv_file w of
                    None \<Rightarrow> [[''match_id'', ''tier'', ''division'']]
                  | Some old \<Rightarrow> old)
      in emit (AppendCsv [match_id, tier, division])
           (w\<lparr>csv_file := Some (rows @ [[match_id, tier, division]])\<rparr>))"

definition save_match :: "string \<Rightarrow> string \<Rightarrow> string \<Rightarrow> world \<Rightarrow> (stop + bool) \<times> world" where
  "save_match match_id tier division w =
     (let folder = (lower tier, division);
          w0 = w\<lparr>dirs := insert folder (dirs w)\<rparr>;
          file_path = (lower tier, division, match_id @ ''.json'')
      in if files w0 file_path \<noteq> None then (Inr False, w0)
         else if \<not> (plain match_id \<and> plain tier \<and> plain division) then (Inl Unmodelled, w0)
         else
           (case make_api_call (MatchURL match_id) w0 of
              (Inl s, w1) \<Rightarrow> (Inl s, w1)
            | (Inr data, w1) \<Rightarrow>
                if truthy data then
                  (let w2 = emit (WriteMatch (lower tier) division (match_id @ ''.json'') data)
                              (w1\<lparr>files := (files w1)(file_path \<mapsto> data)\<rparr>);
                       w3 = save_match_id_csv match_id tier division w2
                   in (Inr True, emit (Log (SavedMatch match_id tier division)) w3))
                else (Inr False, w1)))"

section \<open>Checkpoints\<close>

definition load_state :: "world \<Rightarrow> json" where
  "load_state w = (case state_file w of Some j \<Rightarrow> j | None \<Rightarrow> JObj [])"

definition save_state :: "json \<Rightarrow> world \<Rightarrow> world" where
  "save_state state w = emit (SaveState state) (w\<lparr>state_file := Some state\<rparr>)"

text \<open>
  \<^verbatim>\<open>state.get(tier, {}).get(division, 1)\<close>: both receivers must be dicts, anything else
  has no \<^verbatim>\<open>get\<close>.
\<close>

definition page_of :: "json \<Rightarrow> string \<Rightarrow> string \<Rightarrow> stop + json" where
  "page_of state tier division =
     (case state of
        JObj kvs \<Rightarrow>
          (case (case map_of kvs tier of None \<Rightarrow> JObj [] | Some v \<Rightarrow> v) of
             JObj ds \<Rightarrow> (case map_of ds division of None \<Rightarrow> Inr (JInt 1) | Some p \<Rightarrow> Inr p)
           | _ \<Rightarrow> Inl (Raised AttributeError))
      | _ \<Rightarrow> Inl (Raised AttributeError))"

text \<open>
  \<^verbatim>\<open>state.setdefault(tier, {})[division] = page\<close>. A dict keeps a key where it stands
  and adds a new one at the end, which is \<open>AList.update\<close>.
\<close>

definition set_page :: "json \<Rightarrow> string \<Rightarrow> string \<Rightarrow> json \<Rightarrow> stop + json" where
  "set_page state tier division page =
     (case state of
        JObj kvs \<Rightarrow>
          (case (case map_of kvs tier of None \<Rightarrow> JObj [] | Some v \<Rightarrow> v) of
             JObj ds \<Rightarrow> Inr (JObj (AList.update tier (JObj (AList.update division page ds)) kvs))
           | _ \<Rightarrow> Inl (Raised TypeError))
      | _ \<Rightarrow> Inl (Raised AttributeError))"

text \<open>\<^verbatim>\<open>page += 1\<close>: defined on integers and booleans.\<close>

fun py_incr :: "json \<Rightarrow> stop + json" where
  "py_incr (JInt n) = Inr (JInt (n + 1))"
| "py_incr (JBool b) = Inr (JInt ((if b then 1 else 0) + 1))"
| "py_incr _ = Inl (Raised TypeError)"

section \<open>The collection loop\<close>

text \<open>
  \<^verbatim>\<open>for x in v\<close> over a decoded value: a list gives its elements, a dict its keys, a
  string its characters; the other values are not iterable.
\<close>

fun py_iter :: "json \<Rightarrow> stop + json list" where
  "py_iter (JArr xs) = Inr xs"
| "py_iter (JObj kvs) = Inr (map (\<lambda>kv. JStr (fst kv)) kvs)"
| "py_iter (JStr s) = Inr (map (\<lambda>c. JStr [c]) s)"
| "py_iter _ = Inl (Raised TypeError)"

text \<open>\<^verbatim>\<open>matches[:5]\<close>, then iterated: a list or a string can be sliced.\<close>

fun first_five :: "json \<Rightarrow> stop + json list" where
  "first_five (JArr xs) = Inr (take 5 xs)"
| "first_five (JStr s) = Inr (map (\<lambda>c. JStr [c]) (take 5 s))"
| "first_five _ = Inl (Raised TypeError)"

text \<open>\<^verbatim>\<open>player["summonerId"]\<close>: a dict with the key, \<^verbatim>\<open>KeyError\<close> without it.\<close>

fun summoner_id_of :: "json \<Rightarrow> stop + json" where
  "summoner_id_of (JObj kvs) =
     (case map_of kvs ''summonerId'' of None \<Rightarrow> Inl (Raised KeyError) | Some v \<Rightarrow> Inr v)"
| "summoner_id_of _ = Inl (Raised TypeError)"

text \<open>
  The loop \<^verbatim>\<open>for match_id in matches[:5]\<close>, on the pair of \<^verbatim>\<open>collected\<close> and \<^verbatim>\<open>done\<close>.
  Its \<^verbatim>\<open>break\<close> leaves this loop only.
\<close>

fun for_matches ::
  "int \<Rightarrow> string \<Rightarrow> string \<Rightarrow> json list \<Rightarrow> int \<times> bool \<Rightarrow> world \<Rightarrow> (stop + int \<times> bool) \<times> world" where
  "for_matches q tier division [] (collected, done) w = (Inr (collected, done), w)"
| "for_matches q tier division (m # ms) (collected, done) w =
     (if collected \<ge> q then (Inr (collected, True), w)
      else case m of
        JStr match_id \<Rightarrow>
          (case save_match match_id tier division w of
             (Inl s, w1) \<Rightarrow> (Inl s, w1)
           | (Inr saved, w1) \<Rightarrow>
               if saved then
                 for_matches q tier division ms (collected + 1, done)
                   (emit (Log (Collected (collected + 1) q tier division)) w1)
               else for_matches q tier division ms (collected, done) w1)
      | _ \<Rightarrow> (Inl Unmodelled, w))"

text \<open>The loop \<^verbatim>\<open>for player in players\<close>.\<close>

fun for_players ::
  "int \<Rightarrow> string \<Rightarrow> string \<Rightarrow> json list \<Rightarrow> int \<times> bool \<Rightarrow> world \<Rightarrow> (stop + int \<times> bool) \<times> world" where
  "for_players q tier division [] (collected, done) w = (Inr (collected, done), w)"
| "for_players q tier division (player # ps) (collected, done) w =
     (if collected \<ge> q then (Inr (collected, True), w)
      else case summoner_id_of player of
        Inl s \<Rightarrow> (Inl s, w)
      | Inr summoner_id \<Rightarrow>
          (case get_puuid summoner_id w of
             (Inl s, w1) \<Rightarrow> (Inl s, w1)
           | (Inr puuid, w1) \<Rightarrow>
               if \<not> truthy puuid then for_players q tier division ps (collected, done) w1
               else
                 (case get_matches puuid 10 w1 of
                    (Inl s, w2) \<Rightarrow> (Inl s, w2)
                  | (Inr matches, w2) \<Rightarrow>
                      (case first_five matches of
                         Inl s \<Rightarrow> (Inl s, w2)
                       | Inr ms \<Rightarrow>
                           (case for_matches q tier division ms (collected, done) w2 of
                              (Inl s, w3) \<Rightarrow> (Inl s, w3)
                            | (Inr cd, w3) \<Rightarrow> for_players q tier division ps cd w3)))))"

text \<open>
  The events of the collection loop itself: the listing requests, the checkpoint writes
  and the two log lines of \<^verbatim>\<open>collect_data\<close> about buckets. Everything below the loop
  over pages adds none of them.
\<close>

fun loop_level :: "event \<Rightarrow> bool" where
  "loop_level (Get (PlayersURL t d p)) = True"
| "loop_level (ApiCall (PlayersURL t d p)) = True"
| "loop_level (SaveState s) = True"
| "loop_level (Log (Processing t d)) = True"
| "loop_level (Log FinishedDiamondI) = True"
| "loop_level _ = False"

definition inner :: "event \<Rightarrow> bool" where
  "inner e = (\<not> loop_level e)"

lemma noise_inner: "noise e \<Longrightarrow> inner e"
  by (cases e rule: noise.cases) (simp_all add: inner_def)

lemma make_api_call_cases:
  assumes "make_api_call u w = (res, w')"
  shows "steps (\<lambda>e. noise e \<or> e = Get u \<or> e = ApiCall u) w w'"
    and "net_frame w w'"
    and "\<And>j. res = Inr j \<Longrightarrow> length (script w') < length (script w)"
    and "\<And>s. res = Inl s \<Longrightarrow> s = Pending \<or> s = Unmodelled"
proof -
  let ?A = "\<lambda>e. noise e \<or> e = Get u \<or> e = ApiCall u"
  have a: "api_loop u (emit (ApiCall u) w) = (res, w')"
    using assms by (simp add: make_api_call_def)
  have "steps ?A w (emit (ApiCall u) w)" by (rule steps_emit) simp
  moreover have "steps ?A (emit (ApiCall u) w) w'"
    by (rule steps_mono[OF steps_api_loop[OF a]]) auto
  ultimately show "steps ?A w w'" by (rule steps_trans)
  show "net_frame w w'"
    by (rule net_frame_trans[OF net_frame_emit net_frame_api_loop[OF a]])
  show "length (script w') < length (script w)" if "res = Inr j" for j
    using script_api_loop_less[of u "emit (ApiCall u) w" j w'] a that by simp
  show "s = Pending \<or> s = Unmodelled" if "res = Inl s" for s
    using api_loop_stop[of u "emit (ApiCall u) w" s w'] a that by simp
qed

lemma steps_inner_api:
  assumes "make_api_call u w = (res, w')" and "inner (Get u)" and "inner (ApiCall u)"
  shows "steps inner w w'"
  by (rule steps_mono[OF make_api_call_cases(1)[OF assms(1)]]) (use assms noise_inner in auto)

lemma steps_cache_update:
  assumes "steps A w w1" and "puuid_cache w k = None"
  shows "steps A w (w1\<lparr>puuid_cache := (puuid_cache w1)(k \<mapsto> v)\<rparr>)"
proof -
  have "puuid_cache w \<subseteq>\<^sub>m (puuid_cache w1)(k \<mapsto> v)"
    using assms by (auto simp: steps_def map_le_def domIff)
  then show ?thesis using assms(1) by (simp add: steps_def)
qed

lemma steps_get_puuid:
  assumes "get_puuid sid w = (res, w')"
  shows "steps inner w w'"
proof (cases "key_of sid")
  case None
  then show ?thesis using assms by (simp add: get_puuid_def)
next
  case (Some k)
  show ?thesis
  proof (cases "puuid_cache w k")
    case hit: (Some v)
    then show ?thesis using assms Some by (simp add: get_puuid_def)
  next
    case None
    obtain r w1 where c: "make_api_call (SummonerURL sid) w = (r, w1)" by force
    have s1: "steps inner w w1"
      by (rule steps_inner_api[OF c]) (simp_all add: inner_def)
    show ?thesis
    proof (cases r)
      case (Inl s)
      then show ?thesis using assms Some None c s1 by (simp add: get_puuid_def)
    next
      case (Inr data)
      show ?thesis
      proof (cases "puuid_of data")
        case (Inl s)
        then show ?thesis using assms Some None c Inr s1 by (simp add: get_puuid_def)
      next
        case p: (Inr puuid)
        have "w' = w1\<lparr>puuid_cache := (puuid_cache w1)(k \<mapsto> puuid)\<rparr>"
          using assms Some None c Inr p by (simp add: get_puuid_def)
        then show ?thesis using steps_cache_update[OF s1 None] by simp
      qed
    qed
  qed
qed

lemma steps_get_matches: "get_matches puuid n w = (res, w') \<Longrightarrow> steps inner w w'"
  unfolding get_matches_def
  by (auto split: prod.splits sum.splits dest!: steps_inner_api simp: inner_def)


lemma steps_save_match_id_csv: "steps inner w (save_match_id_csv m t d w)"
  by (simp add: save_match_id_csv_def steps_def emit_def inner_def)

lemma steps_save_match:
  assumes "save_match m t d w = (res, w')"
  shows "steps inner w w'"
proof -
  let ?w0 = "w\<lparr>dirs := insert (lower t, d) (dirs w)\<rparr>"
  have s0: "steps inner w ?w0" by (simp add: steps_def)
  show ?thesis
  proof (cases "files w (lower t, d, m @ ''.json'') = None")
    case False
    then show ?thesis using assms s0 by (auto simp: save_match_def Let_def)
  next
    case True
    show ?thesis
    proof (cases "plain m \<and> plain t \<and> plain d")
      case False
      then show ?thesis using assms True s0 by (auto simp: save_match_def Let_def)
    next
      case np: True
    obtain r w1 where c: "make_api_call (MatchURL m) ?w0 = (r, w1)" by force
    have s1: "steps inner w w1"
      by (rule steps_trans[OF s0 steps_inner_api[OF c]]) (simp_all add: inner_def)
    show ?thesis
    proof (cases r)
      case (Inl s)
      then show ?thesis using assms True np c s1 by (simp add: save_match_def Let_def)
    next
      case (Inr data)
      show ?thesis
      proof (cases "truthy data")
        case False
        then show ?thesis using assms True np c s1 Inr by (simp add: save_match_def Let_def)
      next
        case t: True
        let ?w2 = "emit (WriteMatch (lower t) d (m @ ''.json'') data)
                     (w1\<lparr>files := (files w1)((lower t, d, m @ ''.json'') \<mapsto> data)\<rparr>)"
        have "steps inner w1 ?w2" by (simp add: steps_def emit_def inner_def)
        moreover have "steps inner ?w2 (save_match_id_csv m t d ?w2)"
          by (rule steps_save_match_id_csv)
        moreover have "steps inner (save_match_id_csv m t d ?w2)
                         (emit (Log (SavedMatch m t d)) (save_match_id_csv m t d ?w2))"
          by (rule steps_emit) (simp add: inner_def)
        ultimately have "steps inner w1 (emit (Log (SavedMatch m t d)) (save_match_id_csv m t d ?w2))"
          by (blast intro: steps_trans)
        moreover have "w' = emit (Log (SavedMatch m t d)) (save_match_id_csv m t d ?w2)"
          using assms True np c Inr t by (simp add: save_match_def Let_def)
        ultimately show ?thesis using s1 by (blast intro: steps_trans)
      qed
    qed
    qed
  qed
qed

lemma steps_for_matches:
  "for_matches q t d ms cd w = (res, w') \<Longrightarrow> steps inner w w'"
proof (induction ms arbitrary: cd w)
  case Nil
  then show ?case by (cases cd) simp
next
  case (Cons m ms)
  obtain collected dn where cd: "cd = (collected, dn)" by (cases cd)
  show ?case
  proof (cases "collected \<ge> q")
    case True
    then show ?thesis using Cons.prems cd by simp
  next
    case False
    show ?thesis
    proof (cases m)
      case (JStr mid)
      obtain r w1 where c: "save_match mid t d w = (r, w1)" by force
      have s1: "steps inner w w1" by (rule steps_save_match[OF c])
      show ?thesis
      proof (cases r)
        case (Inl s)
        then show ?thesis using Cons.prems cd False JStr c s1 by simp
      next
        case (Inr saved)
        show ?thesis
        proof (cases saved)
          case True
          let ?w2 = "emit (Log (Collected (collected + 1) q t d)) w1"
          have e: "for_matches q t d ms (collected + 1, dn) ?w2 = (res, w')"
            using Cons.prems cd False JStr c Inr True by simp
          have "steps inner w1 ?w2" by (rule steps_emit) (simp add: inner_def)
          then show ?thesis using s1 Cons.IH[OF e] by (blast intro: steps_trans)
        next
          case f: False
          have e: "for_matches q t d ms (collected, dn) w1 = (res, w')"
            using Cons.prems cd False JStr c Inr f by simp
          show ?thesis using s1 Cons.IH[OF e] by (blast intro: steps_trans)
        qed
      qed
    qed (use Cons.prems cd False in simp_all)
  qed
qed

lemma steps_for_players:
  "for_players q t d ps cd w = (res, w') \<Longrightarrow> steps inner w w'"
proof (induction ps arbitrary: cd w)
  case Nil
  then show ?case by (cases cd) simp
next
  case (Cons player ps)
  obtain collected dn where cd: "cd = (collected, dn)" by (cases cd)
  show ?case
  proof (cases "collected \<ge> q")
    case True
    then show ?thesis using Cons.prems cd by simp
  next
    case False
    show ?thesis
    proof (cases "summoner_id_of player")
      case (Inl s)
      then show ?thesis using Cons.prems cd False by simp
    next
      case (Inr sid)
      obtain r1 w1 where c1: "get_puuid sid w = (r1, w1)" by force
      have s1: "steps inner w w1" by (rule steps_get_puuid[OF c1])
      show ?thesis
      proof (cases r1)
        case (Inl s)
        then show ?thesis using Cons.prems cd False Inr c1 s1 by simp
      next
        case p: (Inr puuid)
        show ?thesis
        proof (cases "truthy puuid")
          case f: False
          have e: "for_players q t d ps (collected, dn) w1 = (res, w')"
            using Cons.prems cd False Inr c1 p f by simp
          show ?thesis using s1 Cons.IH[OF e] by (blast intro: steps_trans)
        next
          case True
          obtain r2 w2 where c2: "get_matches puuid 10 w1 = (r2, w2)" by force
          have s2: "steps inner w w2"
            using s1 steps_get_matches[OF c2] by (blast intro: steps_trans)
          show ?thesis
          proof (cases r2)
            case (Inl s)
            then show ?thesis using Cons.prems cd False Inr c1 p True c2 s2 by simp
          next
            case m: (Inr matches)
            show ?thesis
            proof (cases "first_five matches")
              case (Inl s)
              then show ?thesis using Cons.prems cd False Inr c1 p True c2 m s2 by simp
            next
              case ff: (Inr ms)
              obtain r3 w3 where c3: "for_matches q t d ms (collected, dn) w2 = (r3, w3)" by force
              have s3: "steps inner w w3"
                using s2 steps_for_matches[OF c3] by (blast intro: steps_trans)
              show ?thesis
              proof (cases r3)
                case (Inl s)
                then show ?thesis
                  using Cons.prems cd False Inr c1 p True c2 m ff c3 s3 by simp
              next
                case cd': (Inr cd2)
                have e: "for_players q t d ps cd2 w3 = (res, w')"
                  using Cons.prems cd False Inr c1 p True c2 m ff c3 cd' by simp
                show ?thesis using s3 Cons.IH[OF e] by (blast intro: steps_trans)
              qed
            qed
          qed
        qed
      qed
    qed
  qed
qed


text \<open>
  The \<^verbatim>\<open>while collected < matches_per_tier and not done\<close> loop over the pages of one
  bucket, on the local variables \<^verbatim>\<open>page\<close>, \<^verbatim>\<open>collected\<close>, \<^verbatim>\<open>done\<close> and \<^verbatim>\<open>state\<close>. The
  checkpoint is written with the page that was just requested, then the page is
  advanced and the loop pauses for half a second. Each turn that goes on has taken a
  response from the script.
\<close>

lemma script_save_state [simp]: "script (save_state st w) = script w"
  by (simp add: save_state_def emit_def)

lemma script_get_players:
  "get_players t d p w = (Inr players, w1) \<Longrightarrow> length (script w1) < length (script w)"
  unfolding get_players_def by (rule make_api_call_cases(3)) simp_all

lemma script_for_players:
  "for_players q t d ps cd w = (res, w') \<Longrightarrow> length (script w') \<le> length (script w)"
  using steps_for_players by (simp add: steps_def)

function page_loop ::
  "int \<Rightarrow> string \<Rightarrow> string \<Rightarrow> json \<Rightarrow> int \<times> bool \<Rightarrow> json \<Rightarrow> world \<Rightarrow> (stop + json) \<times> world" where
  "page_loop q tier division page (collected, done) state w =
     (if collected < q \<and> \<not> done then
        (case get_players tier division page w of
           (Inl s, w1) \<Rightarrow> (Inl s, w1)
         | (Inr players, w1) \<Rightarrow>
             if \<not> truthy players then (Inr state, w1)
             else
               (case py_iter players of
                  Inl s \<Rightarrow> (Inl s, w1)
                | Inr ps \<Rightarrow>
                    (case for_players q tier division ps (collected, done) w1 of
                       (Inl s, w2) \<Rightarrow> (Inl s, w2)
                     | (Inr cd, w2) \<Rightarrow>
                         (case set_page state tier division page of
                            Inl s \<Rightarrow> (Inl s, w2)
                          | Inr state' \<Rightarrow>
                              let w3 = save_state state' w2 in
                              (case py_incr page of
                                 Inl s \<Rightarrow> (Inl s, w3)
                               | Inr page' \<Rightarrow>
                                   page_loop q tier division page' cd state'
                                     (sleep PageBuffer 500000 w3))))))
      else (Inr state, w))"
  by pat_completeness auto
termination
proof (relation "measure (\<lambda>(q, t, d, p, cd, st, w). length (script w))", goal_cases)
  case 1
  show ?case by simp
next
  case (2 q tier division page collected dn state w x y b ba xa ya bb bc xb bd)
  have "get_players tier division page w = (Inr b, y)"
    using 2(2,3) by simp
  then have "length (script y) < length (script w)"
    by (rule script_get_players)
  moreover have "for_players q tier division ba (collected, dn) y = (xa, ya)"
    using 2(6) by simp
  then have "length (script ya) \<le> length (script y)"
    by (rule script_for_players)
  ultimately show ?case using 2(9) by simp
qed

declare page_loop.simps [simp del]

text \<open>One turn of \<^verbatim>\<open>for division in divisions_to_process\<close> up to the inner loop.\<close>

definition process_bucket ::
  "int \<Rightarrow> string \<Rightarrow> string \<Rightarrow> json \<Rightarrow> world \<Rightarrow> (stop + json) \<times> world" where
  "process_bucket q tier division state w =
     (let w0 = emit (Log (Processing tier division)) w in
      case page_of state tier division of
        Inl s \<Rightarrow> (Inl s, w0)
      | Inr page \<Rightarrow> page_loop q tier division page (0, False) state w0)"

definition TIERS :: "string list" where
  "TIERS = [''IRON'', ''BRONZE'', ''SILVER'', ''GOLD'', ''PLATINUM'', ''EMERALD'', ''DIAMOND'']"

definition DIVISIONS :: "string list" where
  "DIVISIONS = [''I'', ''II'', ''III'', ''IV'']"

text \<open>
  The two \<^verbatim>\<open>for\<close> loops of \<^verbatim>\<open>collect_data\<close>. \<open>Returned\<close> is the \<^verbatim>\<open>return\<close> statement after
  Diamond I, which leaves both loops; \<open>Exhausted\<close> is a loop running to its end.
\<close>

datatype flow = Returned | Exhausted

fun for_divisions ::
  "int \<Rightarrow> string \<Rightarrow> string list \<Rightarrow> json \<Rightarrow> world \<Rightarrow> (stop + flow \<times> json) \<times> world" where
  "for_divisions q tier [] state w = (Inr (Exhausted, state), w)"
| "for_divisions q tier (division # ds) state w =
     (case process_bucket q tier division state w of
        (Inl s, w1) \<Rightarrow> (Inl s, w1)
      | (Inr state', w1) \<Rightarrow>
          if tier = ''DIAMOND'' \<and> division = ''I'' then
            (Inr (Returned, state'), emit (Log FinishedDiamondI) w1)
          else for_divisions q tier ds state' w1)"

definition divisions_to_process :: "string \<Rightarrow> string list" where
  "divisions_to_process tier = (if tier = ''DIAMOND'' then rev DIVISIONS else DIVISIONS)"

fun for_tiers :: "int \<Rightarrow> string list \<Rightarrow> json \<Rightarrow> world \<Rightarrow> (stop + flow \<times> json) \<times> world" where
  "for_tiers q [] state w = (Inr (Exhausted, state), w)"
| "for_tiers q (tier # ts) state w =
     (case for_divisions q tier (divisions_to_process tier) state w of
        (Inl s, w1) \<Rightarrow> (Inl s, w1)
      | (Inr (Returned, state'), w1) \<Rightarrow> (Inr (Returned, state'), w1)
      | (Inr (Exhausted, state'), w1) \<Rightarrow> for_tiers q ts state' w1)"

definition collect_data :: "int \<Rightarrow> world \<Rightarrow> (stop + unit) \<times> world" where
  "collect_data matches_per_tier w =
     (case for_tiers matches_per_tier TIERS (load_state w) w of
        (Inl s, w1) \<Rightarrow> (Inl s, w1)
      | (Inr _, w1) \<Rightarrow> (Inr (), w1))"

section \<open>The module body\<close>

text \<open>
  What the module does when it is run, after the imports: the check of the credential,
  then, after the definitions, the last four lines. \<^verbatim>\<open>int(input)\<close> applies \<^verbatim>\<open>int\<close> to
  the built-in function \<^verbatim>\<open>input\<close> itself, which is neither a number nor a string.
  \<open>api_key\<close> is the environment variable \<^verbatim>\<open>RIOT_API_KEY\<close>, \<open>is_main\<close> tells whether the
  module is run as a script.
\<close>

datatype pyobj = IntObj int | BuiltinFunction string

fun py_int :: "pyobj \<Rightarrow> stop + int" where
  "py_int (IntObj n) = Inr n"
| "py_int (BuiltinFunction f) = Inl (Raised TypeError)"

definition module_body :: "string option \<Rightarrow> bool \<Rightarrow> world \<Rightarrow> (stop + unit) \<times> world" where
  "module_body api_key is_main w =
     (if api_key = None \<or> api_key = Some [] then (Inl (Raised PyException), w)
      else
        let w1 = emit (Print ''Input desired number of matches per tier: '') w in
        case py_int (BuiltinFunction ''input'') of
          Inl s \<Rightarrow> (Inl s, w1)
        | Inr x \<Rightarrow> if is_main then collect_data 100 w1 else (Inr (), w1))"

section \<open>Claims about the rate limiter\<close>

text \<open>
  A process that has just started on an empty archive: the module-level initialisers
  have run, nothing has been requested or written yet.
\<close>

definition fresh :: "json option \<Rightarrow> response list \<Rightarrow> world" where
  "fresh st rs =
     \<lparr>clock = 0, request_timestamps = [], puuid_cache = Map.empty, dirs = {},
      files = Map.empty, csv_file = None, state_file = st, script = rs, trace = []\<rparr>"

text \<open>
  The durations slept, in order. \<open>admit_at ts\<close> calls the limiter at each of the times
  \<open>ts\<close> (or at once, when the clock is already past that time). \<open>within_limit ts\<close>: each
  call finds fewer than \<^verbatim>\<open>REQUEST_LIMIT\<close> earlier calls in the window that ends at it.
\<close>

fun sleeps :: "event list \<Rightarrow> int list" where
  "sleeps [] = []"
| "sleeps (Sleep who d # es) = d # sleeps es"
| "sleeps (_ # es) = sleeps es"

lemma sleeps_append [simp]: "sleeps (xs @ ys) = sleeps xs @ sleeps ys"
  by (induction xs rule: sleeps.induct) simp_all

fun admit_at :: "int list \<Rightarrow> world \<Rightarrow> world" where
  "admit_at [] w = w"
| "admit_at (t # ts) w = admit_at ts (rate_limit_sleep (w\<lparr>clock := max (clock w) t\<rparr>))"

definition within_limit :: "int list \<Rightarrow> bool" where
  "within_limit ts =
     (\<forall>i < length ts.
        length (filter (\<lambda>t. t > ts ! i - seconds WINDOW_SECONDS) (take i ts)) < REQUEST_LIMIT)"

lemma rls_below:
  assumes "length (filter (\<lambda>t. t > clock w - seconds WINDOW_SECONDS) (request_timestamps w)) < REQUEST_LIMIT"
  shows "rate_limit_sleep w = w\<lparr>request_timestamps :=
            filter (\<lambda>t. t > clock w - seconds WINDOW_SECONDS) (request_timestamps w) @ [clock w],
            trace := trace w @ [Admit]\<rparr>"
  using assms by (simp add: rate_limit_sleep_def Let_def emit_def)

lemma rls_burst_prefix:
  "k \<le> REQUEST_LIMIT \<Longrightarrow> request_timestamps w = [] \<Longrightarrow>
   (rate_limit_sleep ^^ k) w = w\<lparr>request_timestamps := replicate k (clock w),
                                  trace := trace w @ replicate k Admit\<rparr>"
proof (induction k)
  case 0
  then show ?case by simp
next
  case (Suc k)
  let ?w = "w\<lparr>request_timestamps := replicate k (clock w), trace := trace w @ replicate k Admit\<rparr>"
  have "length (filter (\<lambda>t. t > clock ?w - seconds WINDOW_SECONDS) (request_timestamps ?w)) < REQUEST_LIMIT"
    using Suc.prems by (simp add: seconds_def WINDOW_SECONDS_def)
  from rls_below[OF this] Suc show ?case
    by (simp add: seconds_def WINDOW_SECONDS_def replicate_append_same)
qed

lemma rls_full:
  assumes "length (request_timestamps w) = REQUEST_LIMIT" "\<forall>t \<in> set (request_timestamps w). t = clock w"
  shows "clock (rate_limit_sleep w) = clock w + seconds WINDOW_SECONDS"
    and "sleeps (trace (rate_limit_sleep w)) = sleeps (trace w) @ [seconds WINDOW_SECONDS]"
proof -
  have f: "filter (\<lambda>t. t > clock w - seconds WINDOW_SECONDS) (request_timestamps w) = request_timestamps w"
    using assms(2) by (simp add: seconds_def WINDOW_SECONDS_def filter_id_conv)
  obtain t ts where ts: "request_timestamps w = t # ts"
    using assms(1) by (cases "request_timestamps w") (simp_all add: REQUEST_LIMIT_def)
  then have t: "t = clock w" using assms(2) by simp
  show "clock (rate_limit_sleep w) = clock w + seconds WINDOW_SECONDS"
    using assms(1) ts t unfolding rate_limit_sleep_def Let_def f
    by (simp add: emit_def sleep_def seconds_def WINDOW_SECONDS_def)
  show "sleeps (trace (rate_limit_sleep w)) = sleeps (trace w) @ [seconds WINDOW_SECONDS]"
    using assms(1) ts t unfolding rate_limit_sleep_def Let_def f
    by (simp add: emit_def sleep_def seconds_def WINDOW_SECONDS_def)
qed

lemma admit_at_no_sleep:
  assumes "request_timestamps w = filter (\<lambda>t. t > clock w - seconds WINDOW_SECONDS) prev"
    and "\<forall>t \<in> set prev. t \<le> clock w"
    and "sorted ts" and "\<forall>t \<in> set ts. clock w \<le> t"
    and "\<forall>i < length ts.
           length (filter (\<lambda>t. t > ts ! i - seconds WINDOW_SECONDS) (prev @ take i ts)) < REQUEST_LIMIT"
  shows "sleeps (trace (admit_at ts w)) = sleeps (trace w)"
  using assms
proof (induction ts arbitrary: w prev)
  case Nil
  then show ?case by simp
next
  case (Cons t ts)
  let ?W = "seconds WINDOW_SECONDS"
  let ?w0 = "w\<lparr>clock := t\<rparr>"
  have ct: "clock w \<le> t" using Cons.prems(4) by simp
  then have unf: "admit_at (t # ts) w = admit_at ts (rate_limit_sleep ?w0)"
    by (simp add: max_absorb2)
  have c0: "clock ?w0 = t" by simp
  have ff: "filter (\<lambda>x. x > t - ?W) (request_timestamps w) = filter (\<lambda>x. x > t - ?W) prev"
    using ct by (simp add: Cons.prems(1)) (rule filter_cong, auto)
  have lt: "length (filter (\<lambda>x. x > t - ?W) prev) < REQUEST_LIMIT"
    using Cons.prems(5)[rule_format, of 0] by simp
  have step: "rate_limit_sleep ?w0 = ?w0\<lparr>request_timestamps := filter (\<lambda>x. x > t - ?W) prev @ [t],
                 trace := trace w @ [Admit]\<rparr>"
    using rls_below[of ?w0] lt ff c0 by simp
  let ?w1 = "rate_limit_sleep ?w0"
  have 1: "request_timestamps ?w1 = filter (\<lambda>x. x > clock ?w1 - ?W) (prev @ [t])"
    by (simp add: step seconds_def WINDOW_SECONDS_def)
  have 2: "\<forall>x \<in> set (prev @ [t]). x \<le> clock ?w1"
    using Cons.prems(2) ct by (auto simp: step)
  have 3: "sorted ts" using Cons.prems(3) by simp
  have 4: "\<forall>x \<in> set ts. clock ?w1 \<le> x" using Cons.prems(3) by (simp add: step)
  have 5: "\<forall>i < length ts.
           length (filter (\<lambda>x. x > ts ! i - ?W) ((prev @ [t]) @ take i ts)) < REQUEST_LIMIT"
  proof (intro allI impI)
    fix i assume "i < length ts"
    then show "length (filter (\<lambda>x. x > ts ! i - ?W) ((prev @ [t]) @ take i ts)) < REQUEST_LIMIT"
      using Cons.prems(5)[rule_format, of "Suc i"] by simp
  qed
  have "sleeps (trace (admit_at ts ?w1)) = sleeps (trace ?w1)"
    by (rule Cons.IH[OF 1 2 3 4 5])
  then show ?case unfolding unf by (simp add: step)
qed

text \<open>
  Claim C3. On a limiter with no recorded admission, the first call records the time at
  which it is made; \<^verbatim>\<open>REQUEST_LIMIT\<close> calls made at once do not sleep; and the next call
  returns when the window has elapsed since that first timestamp. Calls made at times
  that keep the rate within the limit never sleep.
\<close>

theorem rate_limiter_window:
  "(request_timestamps w = [] \<longrightarrow>
      last (request_timestamps (rate_limit_sleep w)) = clock w \<and>
      sleeps (trace ((rate_limit_sleep ^^ REQUEST_LIMIT) w)) = sleeps (trace w) \<and>
      clock ((rate_limit_sleep ^^ Suc REQUEST_LIMIT) w) = clock w + seconds WINDOW_SECONDS) \<and>
   (request_timestamps w = [] \<and> sorted ts \<and> (\<forall>t \<in> set ts. clock w \<le> t) \<and> within_limit ts \<longrightarrow>
      sleeps (trace (admit_at ts w)) = sleeps (trace w))"
proof (intro conjI impI)
  assume e: "request_timestamps w = []"
  show "last (request_timestamps (rate_limit_sleep w)) = clock w"
    by (simp add: rate_limit_sleep_def Let_def emit_def e REQUEST_LIMIT_def)
  have p: "(rate_limit_sleep ^^ REQUEST_LIMIT) w =
        w\<lparr>request_timestamps := replicate REQUEST_LIMIT (clock w),
          trace := trace w @ replicate REQUEST_LIMIT Admit\<rparr>"
    by (rule rls_burst_prefix[OF le_refl e])
  have na: "sleeps (replicate k Admit) = []" for k by (induction k) simp_all
  show "sleeps (trace ((rate_limit_sleep ^^ REQUEST_LIMIT) w)) = sleeps (trace w)"
    by (simp add: p na)
  show "clock ((rate_limit_sleep ^^ Suc REQUEST_LIMIT) w) = clock w + seconds WINDOW_SECONDS"
    using rls_full(1)[of "(rate_limit_sleep ^^ REQUEST_LIMIT) w"] by (simp add: p)
next
  assume a: "request_timestamps w = [] \<and> sorted ts \<and> (\<forall>t \<in> set ts. clock w \<le> t) \<and> within_limit ts"
  show "sleeps (trace (admit_at ts w)) = sleeps (trace w)"
    by (rule admit_at_no_sleep[where prev = "[]"]) (use a in \<open>simp_all add: within_limit_def\<close>)
qed


theorem rate_limiter_window_witness:
  "request_timestamps (fresh None []) = [] \<and>
   clock ((rate_limit_sleep ^^ Suc REQUEST_LIMIT) (fresh None [])) = 120000000 \<and>
   sorted [0, 5 :: int] \<and> within_limit [0, 5] \<and>
   sleeps (trace (admit_at [0, 5] (fresh None []))) = []"
proof -
  have w: "within_limit [0, 5]"
    by (simp add: within_limit_def REQUEST_LIMIT_def less_Suc_eq)
  have c: "\<forall>t \<in> set [0, 5 :: int]. clock (fresh None []) \<le> t"
    by (simp add: fresh_def)
  show ?thesis
    using rate_limiter_window [of "fresh None []" "[0, 5]"] w c
    by (simp add: fresh_def seconds_def WINDOW_SECONDS_def)
qed

section \<open>Claims about the API client\<close>

text \<open>
  Projections of a trace: the durations slept on a 429, the number of entries into the
  rate limiter, the requests sent. \<open>since w w'\<close> is what a run from \<open>w\<close> to \<open>w'\<close> added
  to the trace.
\<close>

fun retry_sleeps :: "event list \<Rightarrow> int list" where
  "retry_sleeps [] = []"
| "retry_sleeps (Sleep RetryAfter d # es) = d # retry_sleeps es"
| "retry_sleeps (_ # es) = retry_sleeps es"

lemma retry_sleeps_append [simp]: "retry_sleeps (xs @ ys) = retry_sleeps xs @ retry_sleeps ys"
  by (induction xs rule: retry_sleeps.induct) simp_all

fun admits :: "event list \<Rightarrow> nat" where
  "admits [] = 0"
| "admits (Admit # es) = Suc (admits es)"
| "admits (_ # es) = admits es"

lemma admits_append [simp]: "admits (xs @ ys) = admits xs + admits ys"
  by (induction xs rule: admits.induct) simp_all

fun gets :: "event list \<Rightarrow> url list" where
  "gets [] = []"
| "gets (Get u # es) = u # gets es"
| "gets (_ # es) = gets es"

lemma gets_append [simp]: "gets (xs @ ys) = gets xs @ gets ys"
  by (induction xs rule: gets.induct) simp_all

definition since :: "world \<Rightarrow> world \<Rightarrow> event list" where
  "since w w' = drop (length (trace w)) (trace w')"





lemma since_self [simp]: "since w w = []"
  by (simp add: since_def)

lemma since_emit: "since w (emit e w') = since w w' @ [e]" if "length (trace w) \<le> length (trace w')"
  using that by (simp add: since_def emit_def)











section \<open>Claims about the PUUID cache\<close>

text \<open>The calls of \<^verbatim>\<open>make_api_call\<close> in a trace: each is one lookup.\<close>

fun api_calls :: "event list \<Rightarrow> url list" where
  "api_calls [] = []"
| "api_calls (ApiCall u # es) = u # api_calls es"
| "api_calls (_ # es) = api_calls es"

lemma api_calls_append [simp]: "api_calls (xs @ ys) = api_calls xs @ api_calls ys"
  by (induction xs rule: api_calls.induct) simp_all

lemma api_calls_none: "list_all (\<lambda>e. noise e \<or> e = Get u) tr \<Longrightarrow> api_calls tr = []"
proof (induction tr)
  case Nil
  show ?case by simp
next
  case (Cons e tr)
  then have "noise e \<or> e = Get u" and "api_calls tr = []" by simp_all
  then show ?case by (cases e rule: noise.cases) simp_all
qed

lemma make_api_call_trace:
  assumes "make_api_call u w = (res, w')"
  shows "\<exists>tr. trace w' = trace w @ ApiCall u # tr \<and> list_all (\<lambda>e. noise e \<or> e = Get u) tr"
proof -
  have "api_loop u (emit (ApiCall u) w) = (res, w')"
    using assms by (simp add: make_api_call_def)
  from steps_api_loop[OF this] show ?thesis
    by (auto simp: steps_def emit_def)
qed

lemma api_calls_make_api_call:
  "make_api_call u w = (res, w') \<Longrightarrow> api_calls (since w w') = [u]"
  using make_api_call_trace[of u w res w'] by (auto simp: since_def api_calls_none)

lemma get_puuid_hit:
  "key_of sid = Some k \<Longrightarrow> puuid_cache w k = Some v \<Longrightarrow> get_puuid sid w = (Inr v, w)"
  by (simp add: get_puuid_def)

text \<open>
  Claim C7. A call of \<^verbatim>\<open>get_puuid\<close> on an identifier that is not in the cache makes
  exactly one call of \<^verbatim>\<open>make_api_call\<close>, on the summoner endpoint. When it returns a
  value, \<^verbatim>\<open>None\<close> included, the value is in the cache, and a call on the same identifier
  in any world whose cache still has that entry returns it and leaves the world as it
  is: no lookup, no event. The cache never loses an entry (\<open>steps\<close>, by
  \<open>steps_for_players\<close> and the lemmas before it).
\<close>

theorem puuid_resolved_once:
  assumes "key_of sid = Some k" and "puuid_cache w k = None"
  shows "api_calls (since w (snd (get_puuid sid w))) = [SummonerURL sid] \<and>
         (\<forall>v. fst (get_puuid sid w) = Inr v \<longrightarrow>
              puuid_cache (snd (get_puuid sid w)) k = Some v \<and>
              (\<forall>w2. puuid_cache (snd (get_puuid sid w)) \<subseteq>\<^sub>m puuid_cache w2 \<longrightarrow>
                    get_puuid sid w2 = (Inr v, w2)))"
proof -
  obtain r w1 where c: "make_api_call (SummonerURL sid) w = (r, w1)" by force
  have calls: "api_calls (since w w1) = [SummonerURL sid]"
    by (rule api_calls_make_api_call[OF c])
  have tr: "length (trace w) \<le> length (trace w1)"
    using make_api_call_trace[OF c] by auto
  show ?thesis
  proof (cases r)
    case (Inl s)
    then show ?thesis using assms c calls by (simp add: get_puuid_def)
  next
    case (Inr data)
    show ?thesis
    proof (cases "puuid_of data")
      case (Inl s)
      then show ?thesis using assms c calls Inr by (simp add: get_puuid_def)
    next
      case p: (Inr puuid)
      let ?w' = "w1\<lparr>puuid_cache := (puuid_cache w1)(k \<mapsto> puuid)\<rparr>"
      have g: "get_puuid sid w = (Inr puuid, ?w')"
        using assms c Inr p by (simp add: get_puuid_def)
      have 1: "api_calls (since w ?w') = [SummonerURL sid]"
        using calls by (simp add: since_def)
      have 2: "get_puuid sid w2 = (Inr puuid, w2)" if "puuid_cache ?w' \<subseteq>\<^sub>m puuid_cache w2" for w2
      proof -
        have "puuid_cache w2 k = Some puuid"
          using that by (auto simp: map_le_def dest!: bspec[where x = k])
        then show ?thesis by (rule get_puuid_hit[OF assms(1)])
      qed
      show ?thesis using g 1 2 by simp
    qed
  qed
qed

theorem puuid_resolved_once_witness:
  "key_of (JStr ''s1'') = Some (KStr ''s1'') \<and>
   puuid_cache (fresh None [ConnError]) (KStr ''s1'') = None \<and>
   api_calls (since (fresh None [ConnError]) (snd (get_puuid (JStr ''s1'') (fresh None [ConnError]))))
     = [SummonerURL (JStr ''s1'')] \<and>
   fst (get_puuid (JStr ''s1'') (fresh None [ConnError])) = Inr JNull \<and>
   get_puuid (JStr ''s1'') (snd (get_puuid (JStr ''s1'') (fresh None [ConnError])))
     = (Inr JNull, snd (get_puuid (JStr ''s1'') (fresh None [ConnError])))"
proof -
  have k: "key_of (JStr ''s1'') = Some (KStr ''s1'')" by simp
  have m: "puuid_cache (fresh None [ConnError]) (KStr ''s1'') = None" by (simp add: fresh_def)
  have f: "fst (get_puuid (JStr ''s1'') (fresh None [ConnError])) = Inr JNull" by code_simp
  note t = puuid_resolved_once[OF k m]
  have "get_puuid (JStr ''s1'') (snd (get_puuid (JStr ''s1'') (fresh None [ConnError])))
     = (Inr JNull, snd (get_puuid (JStr ''s1'') (fresh None [ConnError])))"
    using t f map_le_refl by blast
  then show ?thesis using k m f t by blast
qed


section \<open>Claims about the match archive\<close>

text \<open>The match files written and the index rows appended in a trace.\<close>

fun writes :: "event list \<Rightarrow> (string \<times> string \<times> string) list" where
  "writes [] = []"
| "writes (WriteMatch folder division name data # es) = (folder, division, name) # writes es"
| "writes (_ # es) = writes es"

lemma writes_append [simp]: "writes (xs @ ys) = writes xs @ writes ys"
  by (induction xs rule: writes.induct) simp_all

fun csv_rows :: "event list \<Rightarrow> string list list" where
  "csv_rows [] = []"
| "csv_rows (AppendCsv row # es) = row # csv_rows es"
| "csv_rows (_ # es) = csv_rows es"

lemma csv_rows_append [simp]: "csv_rows (xs @ ys) = csv_rows xs @ csv_rows ys"
  by (induction xs rule: csv_rows.induct) simp_all























section \<open>Claims about the module body\<close>

text \<open>
  Claim C10. With the credential set, running the module stops at \<^verbatim>\<open>x = int(input)\<close>
  with a \<^verbatim>\<open>TypeError\<close>, whether or not the module is the main script: the prompt has
  been printed, and nothing of \<^verbatim>\<open>collect_data\<close> has happened, no call, no request, no
  checkpoint, no file.
\<close>

theorem module_body_type_error:
  assumes "api_key = Some k" and "k \<noteq> []"
  shows "fst (module_body api_key is_main w) = Inl (Raised TypeError) \<and>
         since w (snd (module_body api_key is_main w)) =
           [Print ''Input desired number of matches per tier: ''] \<and>
         api_calls (since w (snd (module_body api_key is_main w))) = [] \<and>
         script (snd (module_body api_key is_main w)) = script w \<and>
         state_file (snd (module_body api_key is_main w)) = state_file w \<and>
         files (snd (module_body api_key is_main w)) = files w"
  using assms by (simp add: module_body_def since_def emit_def)

theorem module_body_type_error_witness:
  "Some ''RGAPI-0000'' = Some ''RGAPI-0000'' \<and> ''RGAPI-0000'' \<noteq> [] \<and>
   fst (module_body (Some ''RGAPI-0000'') True (fresh None [ConnError])) = Inl (Raised TypeError) \<and>
   script (snd (module_body (Some ''RGAPI-0000'') True (fresh None [ConnError]))) = [ConnError]"
  using module_body_type_error[of "Some ''RGAPI-0000''" "''RGAPI-0000''" True "fresh None [ConnError]"]
  by (simp add: fresh_def)

text \<open>
  Claim C9. The run below has the credential and is the main script. The quota is never
  read: the run stops after printing the prompt. (Past that line the quota would be the
  literal 100 of \<^verbatim>\<open>collect_data(matches_per_tier=100)\<close>, not \<^verbatim>\<open>x\<close>.)
\<close>

theorem quota_prompt_not_read:
  "fst (module_body (Some ''RGAPI-0000'') True (fresh None [])) = Inl (Raised TypeError) \<and>
   trace (snd (module_body (Some ''RGAPI-0000'') True (fresh None []))) =
     [Print ''Input desired number of matches per tier: '']"
  by code_simp


section \<open>Claims about the collection loop\<close>

text \<open>
  The loop over pages by its outcomes: one case for each way a turn can end, and one
  for the turn that goes on to the next page.
\<close>

lemma page_loop_exit:
  "\<not> (c < q \<and> \<not> dn) \<Longrightarrow> page_loop q t d page (c, dn) state w = (Inr state, w)"
  by (subst page_loop.simps) (rule if_not_P)

lemma page_loop_turn:
  "c < q \<and> \<not> dn \<Longrightarrow>
   page_loop q t d page (c, dn) state w =
     (case get_players t d page w of
        (Inl s, w1) \<Rightarrow> (Inl s, w1)
      | (Inr players, w1) \<Rightarrow>
          if \<not> truthy players then (Inr state, w1)
          else
            (case py_iter players of
               Inl s \<Rightarrow> (Inl s, w1)
             | Inr ps \<Rightarrow>
                 (case for_players q t d ps (c, dn) w1 of
                    (Inl s, w2) \<Rightarrow> (Inl s, w2)
                  | (Inr cd, w2) \<Rightarrow>
                      (case set_page state t d page of
                         Inl s \<Rightarrow> (Inl s, w2)
                       | Inr state' \<Rightarrow>
                           let w3 = save_state state' w2 in
                           (case py_incr page of
                              Inl s \<Rightarrow> (Inl s, w3)
                            | Inr page' \<Rightarrow>
                                page_loop q t d page' cd state'
                                  (sleep PageBuffer 500000 w3))))))"
  by (subst page_loop.simps) (rule if_P)

lemma page_loop_induct
  [consumes 1, case_names Exit Listing Break Iter Players SetPage Incr Next]:
  assumes run: "page_loop q t d page cd state w = (res, w')"
    and Exit: "\<And>q t d page c dn state w. \<not> (c < q \<and> \<not> dn) \<Longrightarrow>
           P q t d page (c, dn) state w (Inr state) w"
    and Listing: "\<And>q t d page c dn state w s w1. c < q \<and> \<not> dn \<Longrightarrow>
           get_players t d page w = (Inl s, w1) \<Longrightarrow>
           P q t d page (c, dn) state w (Inl s) w1"
    and Break: "\<And>q t d page c dn state w players w1. c < q \<and> \<not> dn \<Longrightarrow>
           get_players t d page w = (Inr players, w1) \<Longrightarrow> \<not> truthy players \<Longrightarrow>
           P q t d page (c, dn) state w (Inr state) w1"
    and Iter: "\<And>q t d page c dn state w players w1 s. c < q \<and> \<not> dn \<Longrightarrow>
           get_players t d page w = (Inr players, w1) \<Longrightarrow> truthy players \<Longrightarrow>
           py_iter players = Inl s \<Longrightarrow>
           P q t d page (c, dn) state w (Inl s) w1"
    and Players: "\<And>q t d page c dn state w players w1 ps s w2. c < q \<and> \<not> dn \<Longrightarrow>
           get_players t d page w = (Inr players, w1) \<Longrightarrow> truthy players \<Longrightarrow>
           py_iter players = Inr ps \<Longrightarrow>
           for_players q t d ps (c, dn) w1 = (Inl s, w2) \<Longrightarrow>
           P q t d page (c, dn) state w (Inl s) w2"
    and SetPage: "\<And>q t d page c dn state w players w1 ps cd' w2 s. c < q \<and> \<not> dn \<Longrightarrow>
           get_players t d page w = (Inr players, w1) \<Longrightarrow> truthy players \<Longrightarrow>
           py_iter players = Inr ps \<Longrightarrow>
           for_players q t d ps (c, dn) w1 = (Inr cd', w2) \<Longrightarrow>
           set_page state t d page = Inl s \<Longrightarrow>
           P q t d page (c, dn) state w (Inl s) w2"
    and Incr: "\<And>q t d page c dn state w players w1 ps cd' w2 state' s. c < q \<and> \<not> dn \<Longrightarrow>
           get_players t d page w = (Inr players, w1) \<Longrightarrow> truthy players \<Longrightarrow>
           py_iter players = Inr ps \<Longrightarrow>
           for_players q t d ps (c, dn) w1 = (Inr cd', w2) \<Longrightarrow>
           set_page state t d page = Inr state' \<Longrightarrow>
           py_incr page = Inl s \<Longrightarrow>
           P q t d page (c, dn) state w (Inl s) (save_state state' w2)"
    and Next: "\<And>q t d page c dn state w players w1 ps cd' w2 state' page' res w'.
           c < q \<and> \<not> dn \<Longrightarrow>
           get_players t d page w = (Inr players, w1) \<Longrightarrow> truthy players \<Longrightarrow>
           py_iter players = Inr ps \<Longrightarrow>
           for_players q t d ps (c, dn) w1 = (Inr cd', w2) \<Longrightarrow>
           set_page state t d page = Inr state' \<Longrightarrow>
           py_incr page = Inr page' \<Longrightarrow>
           page_loop q t d page' cd' state' (sleep PageBuffer 500000 (save_state state' w2)) = (res, w') \<Longrightarrow>
           P q t d page' cd' state' (sleep PageBuffer 500000 (save_state state' w2)) res w' \<Longrightarrow>
           P q t d page (c, dn) state w res w'"
  shows "P q t d page cd state w res w'"
  using run
proof (induction q t d page cd state w arbitrary: res w' rule: page_loop.induct)
  case (1 q t d page c dn state w)
  show ?case
  proof (cases "c < q \<and> \<not> dn")
    case False
    then have "res = Inr state" "w' = w"
      using "1.prems" by (simp_all add: page_loop_exit)
    then show ?thesis using Exit[OF False] by simp
  next
    case go: True
    note run = "1.prems"[unfolded page_loop_turn[OF go]]
    obtain r1 w1 where g: "get_players t d page w = (r1, w1)" by force
    show ?thesis
    proof (cases r1)
      case (Inl s)
      then have "res = Inl s" "w' = w1"
        using run g by simp_all
      then show ?thesis using Listing[OF go] g Inl by simp
    next
      case (Inr players)
      note g' = g[unfolded Inr]
      show ?thesis
      proof (cases "truthy players")
        case False
        then have "res = Inr state" "w' = w1"
          using run g' by simp_all
        then show ?thesis using Break[OF go g' False] by simp
      next
        case tp: True
        show ?thesis
        proof (cases "py_iter players")
          case (Inl s)
          then have "res = Inl s" "w' = w1"
            using run g' tp by simp_all
          then show ?thesis using Iter[OF go g' tp Inl] by simp
        next
          case it: (Inr ps)
          obtain r2 w2 where f: "for_players q t d ps (c, dn) w1 = (r2, w2)" by force
          show ?thesis
          proof (cases r2)
            case (Inl s)
            then have "res = Inl s" "w' = w2"
              using run g' tp it f by simp_all
            then show ?thesis using Players[OF go g' tp it] f Inl by simp
          next
            case cd: (Inr cd')
            note f' = f[unfolded cd]
            show ?thesis
            proof (cases "set_page state t d page")
              case (Inl s)
              then have "res = Inl s" "w' = w2"
                using run g' tp it f' by simp_all
              then show ?thesis using SetPage[OF go g' tp it f' Inl] by simp
            next
              case sp: (Inr state')
              show ?thesis
              proof (cases "py_incr page")
                case (Inl s)
                then have "res = Inl s" "w' = save_state state' w2"
                  using run g' tp it f' sp by (simp_all add: Let_def)
                then show ?thesis using Incr[OF go g' tp it f' sp Inl] by simp
              next
                case inc: (Inr page')
                let ?w3 = "sleep PageBuffer 500000 (save_state state' w2)"
                have rec: "page_loop q t d page' cd' state' ?w3 = (res, w')"
                  using run g' tp it f' sp inc by (simp add: Let_def)
                have "P q t d page' cd' state' ?w3 res w'"
                  by (rule "1.IH"[OF go g'[symmetric] refl _ it f'[symmetric] refl sp refl inc rec])
                     (simp add: tp)
                then show ?thesis by (rule Next[OF go g' tp it f' sp inc rec])
              qed
            qed
          qed
        qed
      qed
    qed
  qed
qed

text \<open>
  What the loop over pages adds to the history: events of the inner loops, listing
  requests of its own bucket, and checkpoint writes.
\<close>

lemma steps_save_state: "A (SaveState st) \<Longrightarrow> steps A w (save_state st w)"
  by (simp add: steps_def save_state_def emit_def)

definition page_event :: "string \<Rightarrow> string \<Rightarrow> event \<Rightarrow> bool" where
  "page_event t d e \<longleftrightarrow>
     inner e \<or> (\<exists>p. e = Get (PlayersURL t d p)) \<or> (\<exists>p. e = ApiCall (PlayersURL t d p)) \<or>
     (\<exists>s. e = SaveState s)"

lemma page_event_inner: "inner e \<Longrightarrow> page_event t d e"
  by (simp add: page_event_def)

lemma steps_get_players:
  assumes "get_players t d p w = (res, w1)"
  shows "steps (page_event t d) w w1"
proof -
  have "make_api_call (PlayersURL t d p) w = (res, w1)"
    using assms by (simp add: get_players_def)
  from make_api_call_cases(1)[OF this] show ?thesis
    by (rule steps_mono) (auto simp: page_event_def dest: noise_inner)
qed

lemma steps_page_for_players:
  "for_players q t d ps cd w = (res, w') \<Longrightarrow> steps (page_event t d) w w'"
  by (rule steps_mono[OF steps_for_players]) (auto intro: page_event_inner)

lemma steps_page_save:
  "steps (page_event t d) w (save_state st w)"
  by (rule steps_save_state) (simp add: page_event_def)

lemma steps_page_pause:
  "steps (page_event t d) w (sleep PageBuffer 500000 w)"
  by (rule steps_sleep) (simp add: page_event_def inner_def)

lemma steps_page_loop:
  "page_loop q t d page cd state w = (res, w') \<Longrightarrow> steps (page_event t d) w w'"
proof (induction rule: page_loop_induct)
  case (Exit q t d page c dn state w)
  show ?case by simp
next
  case (Listing q t d page c dn state w s w1)
  then show ?case by (blast intro: steps_get_players)
next
  case (Break q t d page c dn state w players w1)
  then show ?case by (blast intro: steps_get_players)
next
  case (Iter q t d page c dn state w players w1 s)
  then show ?case by (blast intro: steps_get_players)
next
  case (Players q t d page c dn state w players w1 ps s w2)
  show ?case
    by (rule steps_trans[OF steps_get_players[OF Players(2)] steps_page_for_players[OF Players(5)]])
next
  case (SetPage q t d page c dn state w players w1 ps cd' w2 s)
  show ?case
    by (rule steps_trans[OF steps_get_players[OF SetPage(2)] steps_page_for_players[OF SetPage(5)]])
next
  case (Incr q t d page c dn state w players w1 ps cd' w2 state' s)
  show ?case
    by (rule steps_trans[OF steps_trans[OF steps_get_players[OF Incr(2)]
          steps_page_for_players[OF Incr(5)]] steps_page_save])
next
  case (Next q t d page c dn state w players w1 ps cd' w2 state' page' res w')
  have "steps (page_event t d) w (sleep PageBuffer 500000 (save_state state' w2))"
    by (rule steps_trans[OF steps_trans[OF steps_trans[OF steps_get_players[OF Next(2)]
          steps_page_for_players[OF Next(5)]] steps_page_save] steps_page_pause])
  then show ?case using Next(9) by (rule steps_trans)
qed

text \<open>
  The two nested \<^verbatim>\<open>for\<close> loops are one loop over the buckets in the order in which the
  nested loops reach them; the \<^verbatim>\<open>return\<close> after Diamond I ends it.
\<close>

fun for_buckets ::
  "int \<Rightarrow> (string \<times> string) list \<Rightarrow> json \<Rightarrow> world \<Rightarrow> (stop + flow \<times> json) \<times> world" where
  "for_buckets q [] state w = (Inr (Exhausted, state), w)"
| "for_buckets q ((tier, division) # bs) state w =
     (case process_bucket q tier division state w of
        (Inl s, w1) \<Rightarrow> (Inl s, w1)
      | (Inr state', w1) \<Rightarrow>
          if tier = ''DIAMOND'' \<and> division = ''I'' then
            (Inr (Returned, state'), emit (Log FinishedDiamondI) w1)
          else for_buckets q bs state' w1)"

definition buckets_of :: "string list \<Rightarrow> (string \<times> string) list" where
  "buckets_of tiers = concat (map (\<lambda>t. map (Pair t) (divisions_to_process t)) tiers)"

lemma for_divisions_flat:
  "for_buckets q (map (Pair t) ds @ rest) st w =
     (case for_divisions q t ds st w of
        (Inl s, w1) \<Rightarrow> (Inl s, w1)
      | (Inr (Returned, st'), w1) \<Rightarrow> (Inr (Returned, st'), w1)
      | (Inr (Exhausted, st'), w1) \<Rightarrow> for_buckets q rest st' w1)"
proof (induction ds arbitrary: st w)
  case Nil
  show ?case by simp
next
  case (Cons d ds)
  obtain r w1 where p: "process_bucket q t d st w = (r, w1)" by force
  show ?case
  proof (cases r)
    case (Inl s)
    then show ?thesis using p by simp
  next
    case (Inr st')
    then show ?thesis using p Cons.IH[of st' w1] by simp
  qed
qed

lemma for_tiers_flat: "for_tiers q tiers st w = for_buckets q (buckets_of tiers) st w"
proof (induction tiers arbitrary: st w)
  case Nil
  show ?case by (simp add: buckets_of_def)
next
  case (Cons t tiers)
  obtain r w1 where f: "for_divisions q t (divisions_to_process t) st w = (r, w1)" by force
  have b: "buckets_of (t # tiers) = map (Pair t) (divisions_to_process t) @ buckets_of tiers"
    by (simp add: buckets_of_def)
  show ?case
  proof (cases r)
    case (Inl s)
    then show ?thesis using f by (simp add: b for_divisions_flat)
  next
    case (Inr p)
    obtain fl st' where p: "p = (fl, st')" by (cases p)
    show ?thesis using f Inr p Cons.IH[of st' w1]
      by (cases fl) (simp_all add: b for_divisions_flat)
  qed
qed

text \<open>
  The buckets a run has started, from its log lines \<^verbatim>\<open>Processing {tier} {division}\<close>.
  \<open>spec_bucket_order\<close> is the order the specification describes: every tier below the
  topmost with the divisions I, II, III, IV, then the topmost tier with IV, III, II, I.
  \<open>up_to_return\<close> cuts a list of buckets after Diamond I.
\<close>

fun processed :: "event list \<Rightarrow> (string \<times> string) list" where
  "processed [] = []"
| "processed (Log (Processing t d) # es) = (t, d) # processed es"
| "processed (_ # es) = processed es"

lemma processed_append [simp]: "processed (xs @ ys) = processed xs @ processed ys"
  by (induction xs rule: processed.induct) simp_all

lemma processed_page_event:
  assumes "page_event t d e"
  shows "processed (e # es) = processed es"
proof (cases e)
  case (Log m)
  then show ?thesis using assms by (cases m) (auto simp: page_event_def inner_def)
qed simp_all

lemma processed_page_events: "list_all (page_event t d) tr \<Longrightarrow> processed tr = []"
proof (induction tr)
  case Nil
  show ?case by simp
next
  case (Cons e tr)
  then show ?case using processed_page_event[of t d e tr] by simp
qed

definition spec_bucket_order :: "(string \<times> string) list" where
  "spec_bucket_order =
     concat (map (\<lambda>t. map (Pair t) [''I'', ''II'', ''III'', ''IV'']) (butlast TIERS)) @
     map (Pair (last TIERS)) [''IV'', ''III'', ''II'', ''I'']"

fun up_to_return :: "(string \<times> string) list \<Rightarrow> (string \<times> string) list" where
  "up_to_return [] = []"
| "up_to_return (b # bs) = (if b = (''DIAMOND'', ''I'') then [b] else b # up_to_return bs)"

lemma process_bucket_trace:
  assumes "process_bucket q t d st w = (res, w')"
  shows "\<exists>tr. trace w' = trace w @ Log (Processing t d) # tr \<and> list_all (page_event t d) tr"
proof (cases "page_of st t d")
  case (Inl s)
  then show ?thesis using assms by (auto simp: process_bucket_def emit_def)
next
  case (Inr page)
  then have "page_loop q t d page (0, False) st (emit (Log (Processing t d)) w) = (res, w')"
    using assms by (simp add: process_bucket_def)
  from steps_page_loop[OF this] show ?thesis by (auto simp: steps_def emit_def)
qed

lemma for_buckets_processed:
  assumes "for_buckets q bs st w = (res, w')"
  shows "\<exists>tr. trace w' = trace w @ tr \<and> prefix (processed tr) (up_to_return bs) \<and>
           (\<forall>fl st'. res = Inr (fl, st') \<longrightarrow>
              processed tr = up_to_return bs \<and>
              (fl = Returned \<longrightarrow> tr \<noteq> [] \<and> last tr = Log FinishedDiamondI \<and>
                 last (processed tr) = (''DIAMOND'', ''I'')) \<and>
              (fl = Exhausted \<longrightarrow> (''DIAMOND'', ''I'') \<notin> set bs))"
  using assms
proof (induction bs arbitrary: st w)
  case Nil
  then have "w' = w" "res = Inr (Exhausted, st)" by auto
  then show ?case by (intro exI[of _ "[]"]) simp
next
  case (Cons b bs)
  obtain t d where b: "b = (t, d)" by (cases b)
  obtain r w1 where p: "process_bucket q t d st w = (r, w1)" by force
  obtain tr1 where tr1: "trace w1 = trace w @ Log (Processing t d) # tr1" "list_all (page_event t d) tr1"
    using process_bucket_trace[OF p] by blast
  have pr1: "processed (Log (Processing t d) # tr1) = [(t, d)]"
    by (simp add: processed_page_events[OF tr1(2)])
  show ?case
  proof (cases r)
    case (Inl s)
    then have "w' = w1" "res = Inl s" using Cons.prems b p by simp_all
    then show ?thesis using tr1(1) pr1 b
      by (intro exI[of _ "Log (Processing t d) # tr1"]) auto
  next
    case (Inr st1)
    show ?thesis
    proof (cases "t = ''DIAMOND'' \<and> d = ''I''")
      case True
      then have e: "w' = emit (Log FinishedDiamondI) w1" "res = Inr (Returned, st1)"
        using Cons.prems b p Inr by simp_all
      have "trace w' = trace w @ (Log (Processing t d) # tr1 @ [Log FinishedDiamondI])"
        by (simp add: e emit_def tr1(1))
      moreover have "processed (Log (Processing t d) # tr1 @ [Log FinishedDiamondI]) = [(t, d)]"
        using pr1 by simp
      ultimately show ?thesis using e b True
        by (intro exI[of _ "Log (Processing t d) # tr1 @ [Log FinishedDiamondI]"]) simp
    next
      case False
      then have "for_buckets q bs st1 w1 = (res, w')"
        using Cons.prems b p Inr by auto
      from Cons.IH[OF this] obtain tr2 where tr2: "trace w' = trace w1 @ tr2"
          "prefix (processed tr2) (up_to_return bs)"
          "\<forall>fl st'. res = Inr (fl, st') \<longrightarrow>
              processed tr2 = up_to_return bs \<and>
              (fl = Returned \<longrightarrow> tr2 \<noteq> [] \<and> last tr2 = Log FinishedDiamondI \<and>
                 last (processed tr2) = (''DIAMOND'', ''I'')) \<and>
              (fl = Exhausted \<longrightarrow> (''DIAMOND'', ''I'') \<notin> set bs)"
        by blast
      let ?tr = "(Log (Processing t d) # tr1) @ tr2"
      have u: "up_to_return (b # bs) = (t, d) # up_to_return bs"
        using False b by auto
      have 1: "trace w' = trace w @ ?tr" by (simp add: tr2(1) tr1(1))
      have 2: "processed ?tr = (t, d) # processed tr2"
        by (simp add: processed_page_events[OF tr1(2)])
      have 3: "prefix (processed ?tr) (up_to_return (b # bs))"
        unfolding 2 u using tr2(2) by simp
      have 4: "processed ?tr = up_to_return (b # bs) \<and>
              (fl = Returned \<longrightarrow> ?tr \<noteq> [] \<and> last ?tr = Log FinishedDiamondI \<and>
                 last (processed ?tr) = (''DIAMOND'', ''I'')) \<and>
              (fl = Exhausted \<longrightarrow> (''DIAMOND'', ''I'') \<notin> set (b # bs))"
        if "res = Inr (fl, st')" for fl st'
      proof -
        note h = tr2(3)[rule_format, OF that]
        have "processed ?tr = up_to_return (b # bs)" unfolding 2 u using h by simp
        moreover have "last ?tr = Log FinishedDiamondI \<and> last (processed ?tr) = (''DIAMOND'', ''I'')"
          if "fl = Returned"
        proof -
          have n: "tr2 \<noteq> []" and l: "last tr2 = Log FinishedDiamondI"
            and lp: "last (processed tr2) = (''DIAMOND'', ''I'')"
            using h that by blast+
          have "processed tr2 \<noteq> []"
          proof
            assume "processed tr2 = []"
            then have "up_to_return bs = []" using h by simp
            then have "bs = []" by (cases bs) (simp_all split: if_splits)
            then show False using \<open>for_buckets q bs st1 w1 = (res, w')\<close> \<open>res = Inr (fl, st')\<close> that
              by simp
          qed
          then show ?thesis unfolding 2 using n l lp by simp
        qed
        moreover have "(''DIAMOND'', ''I'') \<notin> set (b # bs)" if "fl = Exhausted"
          using h that False b by auto
        ultimately show ?thesis by simp
      qed
      show ?thesis using 1 3 4 by blast
    qed
  qed
qed

lemma up_to_return_TIERS: "up_to_return (buckets_of TIERS) = spec_bucket_order"
  by (simp add: buckets_of_def TIERS_def divisions_to_process_def DIVISIONS_def spec_bucket_order_def)

lemma up_to_return_DIAMOND:
  "up_to_return (buckets_of (''DIAMOND'' # later)) =
     map (Pair ''DIAMOND'') [''IV'', ''III'', ''II'', ''I'']"
  by (simp add: buckets_of_def divisions_to_process_def DIVISIONS_def)

text \<open>
  Claim C5. Whatever the server answers and however a run ends, the buckets it has
  started are an initial part of the order of the specification. A run that returns
  has started all of them, the last being Diamond I, and its last action is the log
  line of the \<^verbatim>\<open>return\<close> statement. The \<^verbatim>\<open>return\<close> does not depend on quotas or on
  what is left to do: were there tiers after Diamond in the list, none of their
  buckets would be started.
\<close>

theorem collection_order:
  assumes "collect_data q w = (res, w')"
  shows "prefix (processed (since w w')) spec_bucket_order \<and>
         (res = Inr () \<longrightarrow>
            processed (since w w') = spec_bucket_order \<and>
            last (processed (since w w')) = (''DIAMOND'', ''I'') \<and>
            last (since w w') = Log FinishedDiamondI) \<and>
         (\<forall>later st. prefix (processed (since w (snd (for_tiers q (''DIAMOND'' # later) st w))))
                       (map (Pair ''DIAMOND'') [''IV'', ''III'', ''II'', ''I'']))"
proof (intro conjI allI)
  obtain r where f: "for_buckets q (buckets_of TIERS) (load_state w) w = (r, w')"
    and r: "res = (case r of Inl s \<Rightarrow> Inl s | Inr x \<Rightarrow> Inr ())"
    using assms by (auto simp: collect_data_def for_tiers_flat split: prod.splits sum.splits)
  obtain tr where tr: "trace w' = trace w @ tr" "prefix (processed tr) (up_to_return (buckets_of TIERS))"
    "\<forall>fl st'. r = Inr (fl, st') \<longrightarrow>
        processed tr = up_to_return (buckets_of TIERS) \<and>
        (fl = Returned \<longrightarrow> tr \<noteq> [] \<and> last tr = Log FinishedDiamondI \<and>
           last (processed tr) = (''DIAMOND'', ''I'')) \<and>
        (fl = Exhausted \<longrightarrow> (''DIAMOND'', ''I'') \<notin> set (buckets_of TIERS))"
    using for_buckets_processed[OF f] by blast
  have s: "since w w' = tr" by (simp add: since_def tr(1))
  show "prefix (processed (since w w')) spec_bucket_order"
    using tr(2) by (simp add: s up_to_return_TIERS)
  have m: "(''DIAMOND'', ''I'') \<in> set (buckets_of TIERS)"
    by (simp add: buckets_of_def TIERS_def divisions_to_process_def DIVISIONS_def)
  show "res = Inr () \<longrightarrow>
            processed (since w w') = spec_bucket_order \<and>
            last (processed (since w w')) = (''DIAMOND'', ''I'') \<and>
            last (since w w') = Log FinishedDiamondI"
  proof
    assume "res = Inr ()"
    then obtain fl st' where x: "r = Inr (fl, st')" using r by (cases r) auto
    note h = tr(3)[rule_format, OF x]
    have "fl = Returned" using h m by (cases fl) auto
    then show "processed (since w w') = spec_bucket_order \<and>
            last (processed (since w w')) = (''DIAMOND'', ''I'') \<and>
            last (since w w') = Log FinishedDiamondI"
      using h unfolding s up_to_return_TIERS by blast
  qed
next
  fix later st
  obtain r w2 where f: "for_buckets q (buckets_of (''DIAMOND'' # later)) st w = (r, w2)" by force
  obtain tr where tr: "trace w2 = trace w @ tr"
    "prefix (processed tr) (up_to_return (buckets_of (''DIAMOND'' # later)))"
    using for_buckets_processed[OF f] by blast
  have "since w w2 = tr" by (simp add: since_def tr(1))
  then show "prefix (processed (since w (snd (for_tiers q (''DIAMOND'' # later) st w))))
               (map (Pair ''DIAMOND'') [''IV'', ''III'', ''II'', ''I''])"
    using tr(2) f by (simp add: for_tiers_flat up_to_return_DIAMOND)
qed

theorem collection_order_witness:
  "fst (collect_data 1 (fresh None (replicate 28 ConnError))) = Inr () \<and>
   processed (since (fresh None (replicate 28 ConnError))
                (snd (collect_data 1 (fresh None (replicate 28 ConnError))))) =
     [(''IRON'', ''I''), (''IRON'', ''II''), (''IRON'', ''III''), (''IRON'', ''IV''),
      (''BRONZE'', ''I''), (''BRONZE'', ''II''), (''BRONZE'', ''III''), (''BRONZE'', ''IV''),
      (''SILVER'', ''I''), (''SILVER'', ''II''), (''SILVER'', ''III''), (''SILVER'', ''IV''),
      (''GOLD'', ''I''), (''GOLD'', ''II''), (''GOLD'', ''III''), (''GOLD'', ''IV''),
      (''PLATINUM'', ''I''), (''PLATINUM'', ''II''), (''PLATINUM'', ''III''), (''PLATINUM'', ''IV''),
      (''EMERALD'', ''I''), (''EMERALD'', ''II''), (''EMERALD'', ''III''), (''EMERALD'', ''IV''),
      (''DIAMOND'', ''IV''), (''DIAMOND'', ''III''), (''DIAMOND'', ''II''), (''DIAMOND'', ''I'')] \<and>
   last (since (fresh None (replicate 28 ConnError))
           (snd (collect_data 1 (fresh None (replicate 28 ConnError))))) = Log FinishedDiamondI"
proof -
  let ?w = "fresh None (replicate 28 ConnError)"
  have r: "fst (collect_data 1 ?w) = Inr ()" by code_simp
  have o: "spec_bucket_order =
     [(''IRON'', ''I''), (''IRON'', ''II''), (''IRON'', ''III''), (''IRON'', ''IV''),
      (''BRONZE'', ''I''), (''BRONZE'', ''II''), (''BRONZE'', ''III''), (''BRONZE'', ''IV''),
      (''SILVER'', ''I''), (''SILVER'', ''II''), (''SILVER'', ''III''), (''SILVER'', ''IV''),
      (''GOLD'', ''I''), (''GOLD'', ''II''), (''GOLD'', ''III''), (''GOLD'', ''IV''),
      (''PLATINUM'', ''I''), (''PLATINUM'', ''II''), (''PLATINUM'', ''III''), (''PLATINUM'', ''IV''),
      (''EMERALD'', ''I''), (''EMERALD'', ''II''), (''EMERALD'', ''III''), (''EMERALD'', ''IV''),
      (''DIAMOND'', ''IV''), (''DIAMOND'', ''III''), (''DIAMOND'', ''II''), (''DIAMOND'', ''I'')]"
    by (simp add: spec_bucket_order_def TIERS_def)
  have "collect_data 1 ?w = (fst (collect_data 1 ?w), snd (collect_data 1 ?w))" by simp
  from collection_order[OF this] r o show ?thesis by simp
qed


section \<open>Claims about checkpoints\<close>

text \<open>
  Writing the page of one bucket into the state leaves the pages of the other buckets
  as they were, and the page of that bucket is the one written. \<open>pages_requested t d\<close>
  are the pages of the listing requests sent for the bucket, in order, repeated
  requests included.
\<close>

lemma page_of_set_page_other:
  assumes "set_page st t' d' p = Inr st'" and "(t', d') \<noteq> (t, d)"
  shows "page_of st' t d = page_of st t d"
proof -
  obtain kvs where st: "st = JObj kvs"
    using assms(1) by (cases st) (simp_all add: set_page_def)
  obtain ds where ds: "(case map_of kvs t' of None \<Rightarrow> JObj [] | Some v \<Rightarrow> v) = JObj ds"
    using assms(1) st
    by (cases "case map_of kvs t' of None \<Rightarrow> JObj [] | Some v \<Rightarrow> v") (simp_all add: set_page_def)
  have st': "st' = JObj (AList.update t' (JObj (AList.update d' p ds)) kvs)"
    using assms(1) st ds by (simp add: set_page_def)
  show ?thesis
  proof (cases "t = t'")
    case False
    then show ?thesis by (simp add: st st' page_of_def update_conv')
  next
    case True
    then have "d \<noteq> d'" using assms(2) by simp
    then show ?thesis using True ds
      by (simp add: st st' page_of_def update_conv')
  qed
qed

lemma page_of_set_page_same:
  assumes "set_page st t d p = Inr st'"
  shows "page_of st' t d = Inr p"
proof -
  obtain kvs where st: "st = JObj kvs"
    using assms(1) by (cases st) (simp_all add: set_page_def)
  obtain ds where ds: "(case map_of kvs t of None \<Rightarrow> JObj [] | Some v \<Rightarrow> v) = JObj ds"
    using assms(1) st
    by (cases "case map_of kvs t of None \<Rightarrow> JObj [] | Some v \<Rightarrow> v") (simp_all add: set_page_def)
  have st': "st' = JObj (AList.update t (JObj (AList.update d p ds)) kvs)"
    using assms(1) st ds by (simp add: set_page_def)
  show ?thesis by (simp add: st' page_of_def update_conv')
qed

lemma page_loop_state_other:
  assumes "page_loop q t' d' page cd state w = (res, w')" and "(t', d') \<noteq> (t, d)"
  shows "\<forall>st'. res = Inr st' \<longrightarrow> page_of st' t d = page_of state t d"
  using assms
proof (induction rule: page_loop_induct)
  case (Next q t' d' page c dn state w players w1 ps cd' w2 state' page' res w')
  then show ?case using page_of_set_page_other[of state t' d' page state' t d] by simp
qed simp_all

fun pages_requested :: "string \<Rightarrow> string \<Rightarrow> event list \<Rightarrow> json list" where
  "pages_requested t d [] = []"
| "pages_requested t d (Get (PlayersURL t' d' p) # es) =
     (if t' = t \<and> d' = d then p # pages_requested t d es else pages_requested t d es)"
| "pages_requested t d (_ # es) = pages_requested t d es"

lemma pages_requested_append [simp]:
  "pages_requested t d (xs @ ys) = pages_requested t d xs @ pages_requested t d ys"
  by (induction t d xs rule: pages_requested.induct) simp_all

lemma pages_requested_skip:
  assumes "\<forall>p. e \<noteq> Get (PlayersURL t d p)"
  shows "pages_requested t d (e # es) = pages_requested t d es"
proof (cases e)
  case (Get u)
  then show ?thesis using assms by (cases u) auto
qed simp_all

lemma pages_requested_none:
  assumes "list_all A tr" and "\<And>e p. A e \<Longrightarrow> e \<noteq> Get (PlayersURL t d p)"
  shows "pages_requested t d tr = []"
  using assms(1)
proof (induction tr)
  case Nil
  show ?case by simp
next
  case (Cons e tr)
  then have "\<forall>p. e \<noteq> Get (PlayersURL t d p)" using assms(2) by auto
  then show ?case using Cons by (simp add: pages_requested_skip)
qed

lemma noise_not_get: "noise e \<Longrightarrow> e \<noteq> Get u"
  by (cases e rule: noise.cases) simp_all

lemma pages_requested_inner: "list_all inner tr \<Longrightarrow> pages_requested t d tr = []"
  by (rule pages_requested_none[where A = inner]) (auto simp: inner_def)

lemma pages_requested_other:
  "list_all (page_event t' d') tr \<Longrightarrow> (t', d') \<noteq> (t, d) \<Longrightarrow> pages_requested t d tr = []"
  by (rule pages_requested_none[where A = "page_event t' d'"]) (auto simp: page_event_def inner_def)

lemma pages_requested_listing:
  assumes "list_all (\<lambda>e. noise e \<or> e = Get (PlayersURL t d p)) tr"
  shows "set (pages_requested t d tr) \<subseteq> {p} \<and>
         (Get (PlayersURL t d p) \<in> set tr \<longrightarrow> pages_requested t d tr \<noteq> [])"
  using assms
proof (induction tr)
  case Nil
  show ?case by simp
next
  case (Cons e tr)
  then have "noise e \<or> e = Get (PlayersURL t d p)" by simp
  then show ?case
  proof
    assume n: "noise e"
    then have "pages_requested t d (e # tr) = pages_requested t d tr"
      by (intro pages_requested_skip) (auto dest: noise_not_get)
    then show ?thesis using Cons n by (auto dest: noise_not_get)
  next
    assume "e = Get (PlayersURL t d p)"
    then show ?thesis using Cons by simp
  qed
qed

lemma get_players_listing:
  assumes "get_players t d p w = (r, w1)"
  shows "\<exists>tr. trace w1 = trace w @ tr \<and> pages_requested t d tr \<noteq> [] \<and>
              hd (pages_requested t d tr) = p"
proof -
  let ?u = "PlayersURL t d p"
  have a: "api_loop ?u (emit (ApiCall ?u) w) = (r, w1)"
    using assms by (simp add: get_players_def make_api_call_def)
  obtain tr where tr: "trace w1 = trace (emit (ApiCall ?u) w) @ tr"
      "list_all (\<lambda>e. noise e \<or> e = Get ?u) tr"
    using steps_api_loop[OF a] by (auto simp: steps_def)
  obtain tr' where tr': "trace w1 = trace (emit (ApiCall ?u) w) @ tr'" "Get ?u \<in> set tr'"
    using api_loop_get[OF a] by blast
  have "tr' = tr" using tr(1) tr'(1) by simp
  then have g: "Get ?u \<in> set tr" using tr'(2) by simp
  note l = pages_requested_listing[OF tr(2)]
  have ne: "pages_requested t d tr \<noteq> []" using l g by blast
  then have "hd (pages_requested t d tr) \<in> set (pages_requested t d tr)" by simp
  then have "hd (pages_requested t d tr) = p" using l by blast
  then show ?thesis using tr(1) ne
    by (intro exI[of _ "ApiCall ?u # tr"]) (simp add: emit_def)
qed

text \<open>
  The loop over pages starts with a listing request for the page it is given, unless it
  does not run at all; the buckets of other tiers and divisions request no page of this
  one and keep its entry of the state.
\<close>

lemma page_loop_after_listing:
  assumes "page_loop q t d page cd state w = (res, w')"
  shows "fst cd < q \<and> \<not> snd cd \<longrightarrow>
         (\<exists>r1 w1. get_players t d page w = (r1, w1) \<and> steps (page_event t d) w1 w')"
  using assms
proof (induction rule: page_loop_induct)
  case (Exit q t d page c dn state w)
  then show ?case by auto
next
  case (Listing q t d page c dn state w s w1)
  then show ?case by simp
next
  case (Break q t d page c dn state w players w1)
  then show ?case by simp
next
  case (Iter q t d page c dn state w players w1 s)
  then show ?case by simp
next
  case (Players q t d page c dn state w players w1 ps s w2)
  then show ?case using steps_page_for_players by simp
next
  case (SetPage q t d page c dn state w players w1 ps cd' w2 s)
  then show ?case using steps_page_for_players by simp
next
  case (Incr q t d page c dn state w players w1 ps cd' w2 state' s)
  have "steps (page_event t d) w1 (save_state state' w2)"
    by (rule steps_trans[OF steps_page_for_players[OF Incr(5)] steps_page_save])
  then show ?case using Incr(2) by simp
next
  case (Next q t d page c dn state w players w1 ps cd' w2 state' page' res w')
  have "steps (page_event t d) w1 (sleep PageBuffer 500000 (save_state state' w2))"
    by (rule steps_trans[OF steps_trans[OF steps_page_for_players[OF Next(5)] steps_page_save]
          steps_page_pause])
  then have "steps (page_event t d) w1 w'"
    using steps_page_loop[OF Next(8)] by (rule steps_trans)
  then show ?case using Next(2) by simp
qed

lemma page_loop_first_listing:
  assumes "page_loop q t d page cd state w = (res, w')"
  shows "\<exists>tr. trace w' = trace w @ tr \<and> list_all (page_event t d) tr \<and>
              (pages_requested t d tr = [] \<or> hd (pages_requested t d tr) = page) \<and>
              (fst cd < q \<and> \<not> snd cd \<longrightarrow> pages_requested t d tr \<noteq> [])"
proof (cases "fst cd < q \<and> \<not> snd cd")
  case False
  then have "w' = w" using assms by (cases cd) (simp add: page_loop_exit)
  then show ?thesis using False by (intro exI[of _ "[]"]) simp
next
  case True
  obtain r1 w1 where g: "get_players t d page w = (r1, w1)" and s: "steps (page_event t d) w1 w'"
    using page_loop_after_listing[OF assms] True by blast
  obtain tr1 where tr1: "trace w1 = trace w @ tr1" "pages_requested t d tr1 \<noteq> []"
      "hd (pages_requested t d tr1) = page"
    using get_players_listing[OF g] by blast
  obtain tr2 where tr2: "trace w' = trace w1 @ tr2"
    using s by (auto simp: steps_def)
  obtain tr where tr: "trace w' = trace w @ tr" "list_all (page_event t d) tr"
    using steps_page_loop[OF assms] by (auto simp: steps_def)
  have "tr = tr1 @ tr2" using tr(1) tr1(1) tr2 by simp
  then show ?thesis using tr tr1 by (intro exI[of _ tr]) simp
qed

lemma process_bucket_own:
  assumes "process_bucket q t d st w = (res, w')" and "page_of st t d = Inr P"
  shows "\<exists>tr. trace w' = trace w @ tr \<and> processed tr = [(t, d)] \<and>
              (pages_requested t d tr = [] \<or> hd (pages_requested t d tr) = P) \<and>
              (0 < q \<longrightarrow> pages_requested t d tr \<noteq> [])"
proof -
  let ?w0 = "emit (Log (Processing t d)) w"
  have "page_loop q t d P (0, False) st ?w0 = (res, w')"
    using assms by (simp add: process_bucket_def)
  from page_loop_first_listing[OF this] obtain tr where
    tr: "trace w' = trace ?w0 @ tr" "list_all (page_event t d) tr"
      "pages_requested t d tr = [] \<or> hd (pages_requested t d tr) = P"
      "0 < q \<longrightarrow> pages_requested t d tr \<noteq> []"
    by auto
  show ?thesis
    using tr processed_page_events[OF tr(2)]
    by (intro exI[of _ "Log (Processing t d) # tr"]) (simp add: emit_def)
qed

lemma process_bucket_other:
  assumes "process_bucket q t' d' st w = (res, w')" and "(t', d') \<noteq> (t, d)"
  shows "\<exists>tr. trace w' = trace w @ tr \<and> processed tr = [(t', d')] \<and>
              pages_requested t d tr = [] \<and>
              (\<forall>st'. res = Inr st' \<longrightarrow> page_of st' t d = page_of st t d)"
proof -
  obtain tr where tr: "trace w' = trace w @ Log (Processing t' d') # tr"
      "list_all (page_event t' d') tr"
    using process_bucket_trace[OF assms(1)] by blast
  have st: "\<forall>st'. res = Inr st' \<longrightarrow> page_of st' t d = page_of st t d"
  proof (cases "page_of st t' d'")
    case (Inl s)
    then show ?thesis using assms(1) by (auto simp: process_bucket_def)
  next
    case (Inr page)
    then have "page_loop q t' d' page (0, False) st (emit (Log (Processing t' d')) w) = (res, w')"
      using assms(1) by (simp add: process_bucket_def)
    then show ?thesis by (rule page_loop_state_other[OF _ assms(2)])
  qed
  show ?thesis
    using tr st processed_page_events[OF tr(2)] pages_requested_other[OF tr(2) assms(2)]
    by (intro exI[of _ "Log (Processing t' d') # tr"]) simp
qed

lemma for_buckets_untouched:
  assumes "for_buckets q bs st w = (res, w')" and "(t, d) \<notin> set bs"
  shows "\<exists>tr. trace w' = trace w @ tr \<and> pages_requested t d tr = [] \<and>
              (t, d) \<notin> set (processed tr)"
  using assms
proof (induction bs arbitrary: st w)
  case Nil
  then have "w' = w" by auto
  then show ?case by (intro exI[of _ "[]"]) simp
next
  case (Cons b bs)
  obtain t' d' where b: "b = (t', d')" by (cases b)
  have ne: "(t', d') \<noteq> (t, d)" and nin: "(t, d) \<notin> set bs" using Cons.prems(2) b by auto
  obtain r w1 where p: "process_bucket q t' d' st w = (r, w1)" by force
  obtain tr1 where tr1: "trace w1 = trace w @ tr1" "processed tr1 = [(t', d')]"
      "pages_requested t d tr1 = []"
    using process_bucket_other[OF p ne] by blast
  show ?case
  proof (cases r)
    case (Inl s)
    then have "w' = w1" using Cons.prems(1) b p by simp
    then show ?thesis using tr1 ne by (intro exI[of _ tr1]) auto
  next
    case (Inr st1)
    show ?thesis
    proof (cases "t' = ''DIAMOND'' \<and> d' = ''I''")
      case True
      then have "w' = emit (Log FinishedDiamondI) w1" using Cons.prems(1) b p Inr by simp
      then show ?thesis using tr1 ne
        by (intro exI[of _ "tr1 @ [Log FinishedDiamondI]"]) (auto simp: emit_def)
    next
      case False
      then have "for_buckets q bs st1 w1 = (res, w')" using Cons.prems(1) b p Inr by auto
      from Cons.IH[OF this nin] obtain tr2 where tr2: "trace w' = trace w1 @ tr2"
          "pages_requested t d tr2 = []" "(t, d) \<notin> set (processed tr2)"
        by blast
      show ?thesis using tr1 tr2 ne by (intro exI[of _ "tr1 @ tr2"]) auto
    qed
  qed
qed

lemma for_buckets_first_listing:
  assumes "for_buckets q bs st w = (res, w')" and "distinct bs" and "page_of st t d = Inr P"
  shows "\<exists>tr. trace w' = trace w @ tr \<and>
              (pages_requested t d tr = [] \<or> hd (pages_requested t d tr) = P) \<and>
              (0 < q \<and> (t, d) \<in> set (processed tr) \<longrightarrow> pages_requested t d tr \<noteq> [])"
  using assms
proof (induction bs arbitrary: st w)
  case Nil
  then have "w' = w" by auto
  then show ?case by (intro exI[of _ "[]"]) simp
next
  case (Cons b bs)
  obtain t' d' where b: "b = (t', d')" by (cases b)
  obtain r w1 where p: "process_bucket q t' d' st w = (r, w1)" by force
  show ?case
  proof (cases "(t', d') = (t, d)")
    case own: True
    then have p': "process_bucket q t d st w = (r, w1)" using p by simp
    obtain tr1 where tr1: "trace w1 = trace w @ tr1" "processed tr1 = [(t, d)]"
        "pages_requested t d tr1 = [] \<or> hd (pages_requested t d tr1) = P"
        "0 < q \<longrightarrow> pages_requested t d tr1 \<noteq> []"
      using process_bucket_own[OF p' Cons.prems(3)] by blast
    have nin: "(t, d) \<notin> set bs" using Cons.prems(2) b own by simp
    show ?thesis
    proof (cases r)
      case (Inl s)
      then have "w' = w1" using Cons.prems(1) b p by simp
      then show ?thesis using tr1 by (intro exI[of _ tr1]) auto
    next
      case (Inr st1)
      show ?thesis
      proof (cases "t' = ''DIAMOND'' \<and> d' = ''I''")
        case True
        then have "w' = emit (Log FinishedDiamondI) w1" using Cons.prems(1) b p Inr by simp
        then show ?thesis using tr1
          by (intro exI[of _ "tr1 @ [Log FinishedDiamondI]"]) (auto simp: emit_def)
      next
        case False
        then have "for_buckets q bs st1 w1 = (res, w')" using Cons.prems(1) b p Inr by auto
        from for_buckets_untouched[OF this nin] obtain tr2 where tr2: "trace w' = trace w1 @ tr2"
            "pages_requested t d tr2 = []" "(t, d) \<notin> set (processed tr2)"
          by blast
        show ?thesis using tr1 tr2 by (intro exI[of _ "tr1 @ tr2"]) auto
      qed
    qed
  next
    case other: False
    obtain tr1 where tr1: "trace w1 = trace w @ tr1" "processed tr1 = [(t', d')]"
        "pages_requested t d tr1 = []"
        "\<forall>st'. r = Inr st' \<longrightarrow> page_of st' t d = page_of st t d"
      using process_bucket_other[OF p other] by blast
    show ?thesis
    proof (cases r)
      case (Inl s)
      then have "w' = w1" using Cons.prems(1) b p by simp
      then show ?thesis using tr1 other by (intro exI[of _ tr1]) auto
    next
      case (Inr st1)
      have pg: "page_of st1 t d = Inr P" using tr1(4) Inr Cons.prems(3) by simp
      show ?thesis
      proof (cases "t' = ''DIAMOND'' \<and> d' = ''I''")
        case True
        then have "w' = emit (Log FinishedDiamondI) w1" using Cons.prems(1) b p Inr by simp
        then show ?thesis using tr1 other
          by (intro exI[of _ "tr1 @ [Log FinishedDiamondI]"]) (auto simp: emit_def)
      next
        case False
        then have f: "for_buckets q bs st1 w1 = (res, w')" using Cons.prems(1) b p Inr by auto
        have "distinct bs" using Cons.prems(2) by simp
        from Cons.IH[OF f this pg] obtain tr2 where tr2: "trace w' = trace w1 @ tr2"
            "pages_requested t d tr2 = [] \<or> hd (pages_requested t d tr2) = P"
            "0 < q \<and> (t, d) \<in> set (processed tr2) \<longrightarrow> pages_requested t d tr2 \<noteq> []"
          by blast
        show ?thesis using tr1 tr2 other by (intro exI[of _ "tr1 @ tr2"]) auto
      qed
    qed
  qed
qed

lemma distinct_buckets: "distinct (buckets_of TIERS)"
  by (simp add: buckets_of_def TIERS_def divisions_to_process_def DIVISIONS_def)

definition checkpoint :: "world \<Rightarrow> string \<Rightarrow> string \<Rightarrow> json option" where
  "checkpoint w tier division =
     (case state_file w of
        Some (JObj kvs) \<Rightarrow>
          (case map_of kvs tier of Some (JObj ds) \<Rightarrow> map_of ds division | _ \<Rightarrow> None)
      | _ \<Rightarrow> None)"

lemma page_of_checkpoint:
  "checkpoint w t d = Some P \<Longrightarrow> page_of (load_state w) t d = Inr P"
  by (auto simp: checkpoint_def load_state_def page_of_def split: option.splits json.splits)

lemma collect_data_first_listing:
  assumes "collect_data q w = (res, w')" and "page_of (load_state w) t d = Inr P"
  shows "(pages_requested t d (since w w') = [] \<or> hd (pages_requested t d (since w w')) = P) \<and>
         (0 < q \<and> (t, d) \<in> set (processed (since w w')) \<longrightarrow> pages_requested t d (since w w') \<noteq> [])"
proof -
  obtain r where f: "for_buckets q (buckets_of TIERS) (load_state w) w = (r, w')"
    using assms(1) by (auto simp: collect_data_def for_tiers_flat split: prod.splits sum.splits)
  obtain tr where tr: "trace w' = trace w @ tr"
      "pages_requested t d tr = [] \<or> hd (pages_requested t d tr) = P"
      "0 < q \<and> (t, d) \<in> set (processed tr) \<longrightarrow> pages_requested t d tr \<noteq> []"
    using for_buckets_first_listing[OF f distinct_buckets assms(2)] by blast
  have "since w w' = tr" by (simp add: since_def tr(1))
  then show ?thesis using tr by simp
qed

text \<open>
  Claim C4. \<open>checkpoint w t d\<close> is the page the checkpoint file holds for a bucket. In
  every run, complete or not, the first listing request for a bucket with a persisted
  page \<open>P\<close> is for page \<open>P\<close>, and there is such a request as soon as the bucket is
  started with a positive quota. Without a checkpoint file \<^verbatim>\<open>load_state\<close> returns the
  empty mapping, and the first listing request of every bucket is for page 1.
\<close>

theorem checkpoint_resumption:
  assumes "collect_data q w = (res, w')"
  shows "(checkpoint w t d = Some P \<longrightarrow>
            (pages_requested t d (since w w') = [] \<or> hd (pages_requested t d (since w w')) = P) \<and>
            (0 < q \<and> (t, d) \<in> set (processed (since w w')) \<longrightarrow>
               pages_requested t d (since w w') \<noteq> [])) \<and>
         (state_file w = None \<longrightarrow>
            load_state w = JObj [] \<and>
            (pages_requested t d (since w w') = [] \<or>
             hd (pages_requested t d (since w w')) = JInt 1) \<and>
            (0 < q \<and> (t, d) \<in> set (processed (since w w')) \<longrightarrow>
               pages_requested t d (since w w') \<noteq> []))"
proof (intro conjI impI)
  assume c: "checkpoint w t d = Some P"
  note h = collect_data_first_listing[OF assms page_of_checkpoint[OF c]]
  show "pages_requested t d (since w w') = [] \<or> hd (pages_requested t d (since w w')) = P"
    using h by blast
  show "pages_requested t d (since w w') \<noteq> []"
    if "0 < q \<and> (t, d) \<in> set (processed (since w w'))"
    using h that by blast
next
  assume n: "state_file w = None"
  then show l: "load_state w = JObj []" by (simp add: load_state_def)
  have "page_of (load_state w) t d = Inr (JInt 1)" by (simp add: l page_of_def)
  note h = collect_data_first_listing[OF assms this]
  show "pages_requested t d (since w w') = [] \<or> hd (pages_requested t d (since w w')) = JInt 1"
    using h by blast
  show "pages_requested t d (since w w') \<noteq> []"
    if "0 < q \<and> (t, d) \<in> set (processed (since w w'))"
    using h that by blast
qed

theorem checkpoint_resumption_witness:
  "checkpoint (fresh (Some (JObj [(''BRONZE'', JObj [(''I'', JInt 7)])])) (replicate 5 ConnError))
     ''BRONZE'' ''I'' = Some (JInt 7) \<and>
   (''BRONZE'', ''I'') \<in> set (processed
      (since (fresh (Some (JObj [(''BRONZE'', JObj [(''I'', JInt 7)])])) (replicate 5 ConnError))
        (snd (collect_data 1
           (fresh (Some (JObj [(''BRONZE'', JObj [(''I'', JInt 7)])])) (replicate 5 ConnError)))))) \<and>
   pages_requested ''BRONZE'' ''I''
      (since (fresh (Some (JObj [(''BRONZE'', JObj [(''I'', JInt 7)])])) (replicate 5 ConnError))
        (snd (collect_data 1
           (fresh (Some (JObj [(''BRONZE'', JObj [(''I'', JInt 7)])])) (replicate 5 ConnError)))))
     \<noteq> [] \<and>
   hd (pages_requested ''BRONZE'' ''I''
      (since (fresh (Some (JObj [(''BRONZE'', JObj [(''I'', JInt 7)])])) (replicate 5 ConnError))
        (snd (collect_data 1
           (fresh (Some (JObj [(''BRONZE'', JObj [(''I'', JInt 7)])])) (replicate 5 ConnError))))))
     = JInt 7 \<and>
   state_file (fresh None [ConnError]) = None \<and>
   (''IRON'', ''I'') \<in> set (processed
      (since (fresh None [ConnError]) (snd (collect_data 1 (fresh None [ConnError]))))) \<and>
   hd (pages_requested ''IRON'' ''I''
      (since (fresh None [ConnError]) (snd (collect_data 1 (fresh None [ConnError]))))) = JInt 1"
proof -
  let ?w = "fresh (Some (JObj [(''BRONZE'', JObj [(''I'', JInt 7)])])) (replicate 5 ConnError)"
  let ?v = "fresh None [ConnError]"
  have c: "checkpoint ?w ''BRONZE'' ''I'' = Some (JInt 7)" by code_simp
  have m: "(''BRONZE'', ''I'') \<in> set (processed (since ?w (snd (collect_data 1 ?w))))"
    by code_simp
  have n: "state_file ?v = None" by (simp add: fresh_def)
  have k: "(''IRON'', ''I'') \<in> set (processed (since ?v (snd (collect_data 1 ?v))))"
    by code_simp
  have rw: "collect_data 1 ?w = (fst (collect_data 1 ?w), snd (collect_data 1 ?w))" by simp
  have rv: "collect_data 1 ?v = (fst (collect_data 1 ?v), snd (collect_data 1 ?v))" by simp
  note tw = checkpoint_resumption[OF rw, of "''BRONZE''" "''I''" "JInt 7"]
  note tv = checkpoint_resumption[OF rv, of "''IRON''" "''I''" "JInt 7"]
  have q: "(0::int) < 1" by simp
  show ?thesis using tw tv c m n k q by blast
qed

end
